theory Spec2Isabelle
  imports Main "HOL-Library.Stream"
begin

text \<open>
  A model of the frame relay of \<open>stream_server.py\<close> and of its older copy
  \<open>stream_server_working_backup.py\<close>: the bounded frame queue, the byte-read primitive
  \<open>recvall\<close>, the read loop that turns a length-prefixed byte stream into frames, the
  receiver's accept loop and \<open>stop\<close>, the status endpoint and the streaming generator.
  Each thread's code is modelled as a sequential function of its state and of what the
  world does (what arrives on a socket and when); exceptions are values, loops are
  recursive functions, blocking forever is a result of its own. Where the two files differ,
  the definitions of the backup file carry the suffix \<open>_backup\<close>.
\<close>

section \<open>Bytes\<close>

text \<open>
  Python \<open>bytes\<close> and \<open>bytearray\<close> values are lists of 8-bit characters. A JPEG frame is
  an opaque byte string.
\<close>

type_synonym bytes = "char list"

section \<open>The global frame queue\<close>

text \<open>
  \<^verbatim>\<open>frame_queue = Queue(maxsize=10)\<close> in both files. The model keeps the two pieces of state
  of \<open>queue.Queue\<close> that the program uses: \<open>maxsize\<close> and the FIFO contents, oldest first.
  As in the Python library, a \<open>maxsize\<close> of 0 means "no bound". \<open>get\<close> on an empty queue
  and \<open>put\<close> on a full queue block the calling thread; with no second thread in the model
  that is the result \<open>None\<close>.
\<close>

record queue =
  maxsize :: nat
  items :: "bytes list"

definition frame_queue :: queue where
  "frame_queue = \<lparr>maxsize = 10, items = []\<rparr>"

definition qsize :: "queue \<Rightarrow> nat" where
  "qsize q = length (items q)"

definition empty_q :: "queue \<Rightarrow> bool" where
  "empty_q q = (qsize q = 0)"

definition full_q :: "queue \<Rightarrow> bool" where
  "full_q q = (0 < maxsize q \<and> maxsize q \<le> qsize q)"

definition get_q :: "queue \<Rightarrow> (bytes \<times> queue) option" where
  "get_q q = (case items q of [] \<Rightarrow> None | x # xs \<Rightarrow> Some (x, q\<lparr>items := xs\<rparr>))"

definition put_q :: "queue \<Rightarrow> bytes \<Rightarrow> queue option" where
  "put_q q x = (if full_q q then None else Some (q\<lparr>items := items q @ [x]\<rparr>))"

text \<open>
  The push at the end of the read loop (identical in both files):
  \<^verbatim>\<open>
  if frame_queue.full():
      frame_queue.get()
  frame_queue.put(frame_data)
  \<close>
\<close>

definition push :: "queue \<Rightarrow> bytes \<Rightarrow> queue option" where
  "push q frame_data =
     (if full_q q
      then (case get_q q of None \<Rightarrow> None | Some (_, q') \<Rightarrow> put_q q' frame_data)
      else put_q q frame_data)"

text \<open>A sequence of pushes, stopping where one would block.\<close>

fun pushes :: "queue \<Rightarrow> bytes list \<Rightarrow> queue option" where
  "pushes q [] = Some q"
| "pushes q (p # ps) = (case push q p of None \<Rightarrow> None | Some q' \<Rightarrow> pushes q' ps)"

text \<open>
  The consumer's guarded pop, the first two lines of the body of \<open>generate_frames\<close>:
  \<^verbatim>\<open>
  if not frame_queue.empty():
      frame = frame_queue.get()
      ...
  else:
      ...
  \<close>
\<close>

datatype pop_result = Got bytes | Empty | WouldBlock

definition try_pop :: "queue \<Rightarrow> pop_result \<times> queue" where
  "try_pop q =
     (if \<not> empty_q q
      then (case get_q q of None \<Rightarrow> (WouldBlock, q) | Some (frame, q') \<Rightarrow> (Got frame, q'))
      else (Empty, q))"

text \<open>\<open>n\<close> successive \<open>try_pop\<close> calls with nothing pushed in between.\<close>

fun pops :: "nat \<Rightarrow> queue \<Rightarrow> pop_result list \<times> queue" where
  "pops 0 q = ([], q)"
| "pops (Suc n) q = (case try_pop q of (r, q') \<Rightarrow> (case pops n q' of (rs, q'') \<Rightarrow> (r # rs, q'')))"

section \<open>Sockets\<close>

text \<open>
  A connected socket is modelled by what its \<open>recv\<close> calls will do: a script of events,
  each with the time (in milliseconds) that passes before the call returns.
  \<^item> \<open>Data bs\<close>: the bytes \<open>bs\<close> have arrived; \<open>recv(bufsize)\<close> returns at most
    \<open>bufsize\<close> of them and the rest stays available at once;
  \<^item> \<open>TimedOut\<close>: the call raises \<open>socket.timeout\<close>;
  \<^item> \<open>Fails errno\<close>: the call raises \<open>socket.error\<close> with that \<open>errno\<close>; for
    \<open>ETIMEDOUT\<close> the exception is \<open>TimeoutError\<close>, which \<open>socket.timeout\<close> names
    since Python 3.10, so it is caught as a timeout.
  When the script is used up the peer has closed the connection: \<open>recv\<close> returns the
  empty byte string. \<open>recv\<close> on a closed socket raises \<open>socket.error\<close> (\<open>EBADF\<close>).
  \<open>clock\<close> is what \<open>time.time()\<close> reads, in milliseconds; time passes while a call
  waits (\<open>recv\<close>, \<open>accept\<close>, \<open>sleep\<close>) and not otherwise.
\<close>

datatype recv_event = Data bytes | TimedOut | Fails nat

datatype exn = SocketTimeout | SocketError "nat option" | ValueError | StructError

definition EINTR :: nat where
  "EINTR = 4"

definition EBADF :: nat where
  "EBADF = 9"

definition ETIMEDOUT :: nat where
  "ETIMEDOUT = 110"

record sock =
  closed :: bool
  clock :: nat
  script :: "(nat \<times> recv_event) list"

definition recv :: "sock \<Rightarrow> nat \<Rightarrow> (exn + bytes) \<times> sock" where
  "recv s bufsize =
     (if closed s then (Inl (SocketError (Some EBADF)), s)
      else (case script s of
          [] \<Rightarrow> (Inr [], s)
        | (d, ev) # rest \<Rightarrow>
            (case ev of
               Data bs \<Rightarrow>
                 if length bs \<le> bufsize
                 then (Inr bs, s\<lparr>clock := clock s + d, script := rest\<rparr>)
                 else (Inr (take bufsize bs),
                       s\<lparr>clock := clock s + d, script := (0, Data (drop bufsize bs)) # rest\<rparr>)
             | TimedOut \<Rightarrow> (Inl SocketTimeout, s\<lparr>clock := clock s + d, script := rest\<rparr>)
             | Fails errno \<Rightarrow>
                 (Inl (if errno = ETIMEDOUT then SocketTimeout else SocketError (Some errno)),
                  s\<lparr>clock := clock s + d, script := rest\<rparr>))))"

text \<open>What is left of a script: one unit for each event and one for each byte.\<close>

fun weight :: "(nat \<times> recv_event) list \<Rightarrow> nat" where
  "weight [] = 0"
| "weight ((d, Data bs) # es) = Suc (length bs + weight es)"
| "weight ((d, TimedOut) # es) = Suc (weight es)"
| "weight ((d, Fails e) # es) = Suc (weight es)"

lemma recv_weight_le: "recv s k = (r, s') \<Longrightarrow> weight (script s') \<le> weight (script s)"
  by (auto simp: recv_def split: if_splits list.splits recv_event.splits)

lemma recv_data_weight:
  "recv s k = (Inr packet, s') \<Longrightarrow> packet \<noteq> [] \<Longrightarrow> weight (script s') < weight (script s)"
  by (auto simp: recv_def split: if_splits list.splits recv_event.splits)

lemma recv_timeout_weight:
  "recv s k = (Inl SocketTimeout, s') \<Longrightarrow> weight (script s') < weight (script s)"
  by (auto simp: recv_def split: if_splits list.splits recv_event.splits)

lemma recv_eintr_weight:
  "recv s k = (Inl (SocketError (Some EINTR)), s') \<Longrightarrow> weight (script s') < weight (script s)"
  by (auto simp: recv_def EINTR_def EBADF_def ETIMEDOUT_def
      split: if_splits list.splits recv_event.splits)

section \<open>The byte-read primitive\<close>

text \<open>
  \<open>StreamReceiver.recvall\<close> of \<open>stream_server.py\<close>:
  \<^verbatim>\<open>
  data = bytearray()
  start_time = time.time()
  while len(data) < n and time.time() - start_time < 10:
      try:
          packet = sock.recv(min(n - len(data), 8192))
          if not packet:
              return None
          data.extend(packet)
      except socket.timeout:
          continue
      except socket.error as e:
          if e.errno == errno.EINTR:
              continue
          raise
  if len(data) < n:
      raise socket.timeout("Failed to receive complete data within timeout")
  return data
  \<close>
  The result is the exception raised, or the value returned (\<open>None\<close> or the bytes), with
  the socket as the call leaves it.
\<close>

function recvall_loop :: "sock \<Rightarrow> nat \<Rightarrow> nat \<Rightarrow> bytes \<Rightarrow> (exn + bytes option) \<times> sock" where
  "recvall_loop s n start_time data =
     (if length data < n \<and> clock s - start_time < 10000
      then (case recv s (min (n - length data) 8192) of
          (Inr packet, s') \<Rightarrow>
            if packet = [] then (Inr None, s')
            else recvall_loop s' n start_time (data @ packet)
        | (Inl SocketTimeout, s') \<Rightarrow> recvall_loop s' n start_time data
        | (Inl (SocketError e), s') \<Rightarrow>
            if e = Some EINTR then recvall_loop s' n start_time data
            else (Inl (SocketError e), s')
        | (Inl x, s') \<Rightarrow> (Inl x, s'))
      else if length data < n then (Inl SocketTimeout, s)
      else (Inr (Some data), s))"
  by pat_completeness auto
termination
  by (relation "measure (\<lambda>(s, n, start_time, data). weight (script s))")
     (auto dest: recv_data_weight [OF sym] recv_timeout_weight [OF sym]
        recv_eintr_weight [OF sym])

declare recvall_loop.simps [simp del]

definition recvall :: "sock \<Rightarrow> nat \<Rightarrow> (exn + bytes option) \<times> sock" where
  "recvall s n = recvall_loop s n (clock s) []"

text \<open>
  \<open>StreamReceiver.recvall\<close> of \<open>stream_server_working_backup.py\<close>:
  \<^verbatim>\<open>
  data = bytearray()
  while len(data) < n:
      packet = sock.recv(n - len(data))
      if not packet:
          return None
      data.extend(packet)
  return data
  \<close>
\<close>

function recvall_backup_loop :: "sock \<Rightarrow> nat \<Rightarrow> bytes \<Rightarrow> (exn + bytes option) \<times> sock" where
  "recvall_backup_loop s n data =
     (if length data < n
      then (case recv s (n - length data) of
          (Inr packet, s') \<Rightarrow>
            if packet = [] then (Inr None, s')
            else recvall_backup_loop s' n (data @ packet)
        | (Inl x, s') \<Rightarrow> (Inl x, s'))
      else (Inr (Some data), s))"
  by pat_completeness auto
termination
  by (relation "measure (\<lambda>(s, n, data). weight (script s))")
     (auto dest: recv_data_weight [OF sym])

declare recvall_backup_loop.simps [simp del]

definition recvall_backup :: "sock \<Rightarrow> nat \<Rightarrow> (exn + bytes option) \<times> sock" where
  "recvall_backup s n = recvall_backup_loop s n []"

section \<open>What a call of the byte-read primitive guarantees\<close>

text \<open>These facts also give the measure under which the read loops terminate.\<close>

lemma recv_length: "recv s k = (Inr packet, s') \<Longrightarrow> length packet \<le> k"
  by (auto simp: recv_def split: if_splits list.splits recv_event.splits)

lemma recvall_loop_exit:
  "\<not> (length data < n \<and> clock s - st < 10000) \<Longrightarrow>
   recvall_loop s n st data =
     (if length data < n then (Inl SocketTimeout, s) else (Inr (Some data), s))"
  by (simp add: recvall_loop.simps [of s n st data])

lemma recvall_loop_step:
  "length data < n \<Longrightarrow> clock s - st < 10000 \<Longrightarrow>
   recv s (min (n - length data) 8192) = (x, s1) \<Longrightarrow>
   recvall_loop s n st data =
     (case x of
        Inr packet \<Rightarrow>
          if packet = [] then (Inr None, s1) else recvall_loop s1 n st (data @ packet)
      | Inl SocketTimeout \<Rightarrow> recvall_loop s1 n st data
      | Inl (SocketError e) \<Rightarrow>
          if e = Some EINTR then recvall_loop s1 n st data else (Inl (SocketError e), s1)
      | Inl e \<Rightarrow> (Inl e, s1))"
  by (simp add: recvall_loop.simps [of s n st data] split: sum.splits exn.splits)

lemma recvall_backup_loop_exit:
  "\<not> length data < n \<Longrightarrow> recvall_backup_loop s n data = (Inr (Some data), s)"
  by (simp add: recvall_backup_loop.simps [of s n data])

lemma recvall_backup_loop_step:
  "length data < n \<Longrightarrow> recv s (n - length data) = (x, s1) \<Longrightarrow>
   recvall_backup_loop s n data =
     (case x of
        Inr packet \<Rightarrow>
          if packet = [] then (Inr None, s1) else recvall_backup_loop s1 n (data @ packet)
      | Inl e \<Rightarrow> (Inl e, s1))"
  by (simp add: recvall_backup_loop.simps [of s n data] split: sum.splits)

text \<open>
  What every run of the loop guarantees: the script only shrinks, and bytes are returned
  only when there are exactly \<open>n\<close> of them.
\<close>

lemma recvall_loop_result:
  "recvall_loop s n st data = (r, s') \<Longrightarrow>
     weight (script s') \<le> weight (script s) \<and>
     (\<forall>d. r = Inr (Some d) \<longrightarrow>
        (d = data \<or> weight (script s') < weight (script s)) \<and>
        (length data \<le> n \<longrightarrow> length d = n))"
proof (induction s n st data rule: recvall_loop.induct)
  case (1 s n st data)
  show ?case
  proof (cases "length data < n \<and> clock s - st < 10000")
    case False
    with "1.prems" show ?thesis
      by (auto simp: recvall_loop_exit split: if_splits)
  next
    case True
    obtain x s1 where rv: "recv s (min (n - length data) 8192) = (x, s1)"
      by (cases "recv s (min (n - length data) 8192)")
    note le = recv_weight_le [OF rv]
    from True have t1: "length data < n" and t2: "clock s - st < 10000"
      by simp_all
    note step = recvall_loop_step [OF t1 t2 rv]
    show ?thesis
    proof (cases x)
      case (Inr packet)
      show ?thesis
      proof (cases "packet = []")
        case True
        with step Inr "1.prems" le show ?thesis
          by auto
      next
        case False
        from rv Inr False have lt: "weight (script s1) < weight (script s)"
          by (auto dest: recv_data_weight)
        from rv Inr have "length packet \<le> n - length data"
          by (auto dest: recv_length)
        with t1 have len: "length (data @ packet) \<le> n"
          by simp
        from step Inr False "1.prems"
        have "recvall_loop s1 n st (data @ packet) = (r, s')"
          by simp
        from "1.IH"(3) [OF True rv [symmetric] Inr False this] lt len False show ?thesis
          by auto
      qed
    next
      case (Inl e)
      show ?thesis
      proof (cases e)
        case SocketTimeout
        from rv Inl SocketTimeout have lt: "weight (script s1) < weight (script s)"
          by (auto dest: recv_timeout_weight)
        from step Inl SocketTimeout "1.prems"
        have "recvall_loop s1 n st data = (r, s')"
          by simp
        from "1.IH"(1) [OF True rv [symmetric] Inl SocketTimeout this] lt show ?thesis
          by auto
      next
        case (SocketError eo)
        show ?thesis
        proof (cases "eo = Some EINTR")
          case T: True
          from rv Inl SocketError T have lt: "weight (script s1) < weight (script s)"
            by (auto dest: recv_eintr_weight)
          from step Inl SocketError T "1.prems"
          have "recvall_loop s1 n st data = (r, s')"
            by simp
          from "1.IH"(2) [OF True rv [symmetric] Inl SocketError T this] lt show ?thesis
            by auto
        next
          case False
          with step Inl SocketError "1.prems" le show ?thesis
            by auto
        qed
      next
        case ValueError
        with step Inl "1.prems" le show ?thesis
          by auto
      next
        case StructError
        with step Inl "1.prems" le show ?thesis
          by auto
      qed
    qed
  qed
qed

lemma recvall_backup_loop_result:
  "recvall_backup_loop s n data = (r, s') \<Longrightarrow>
     weight (script s') \<le> weight (script s) \<and>
     (\<forall>d. r = Inr (Some d) \<longrightarrow>
        (d = data \<or> weight (script s') < weight (script s)) \<and>
        (length data \<le> n \<longrightarrow> length d = n))"
proof (induction s n data rule: recvall_backup_loop.induct)
  case (1 s n data)
  show ?case
  proof (cases "length data < n")
    case False
    with "1.prems" show ?thesis
      by (auto simp: recvall_backup_loop_exit)
  next
    case True
    obtain x s1 where rv: "recv s (n - length data) = (x, s1)"
      by (cases "recv s (n - length data)")
    note le = recv_weight_le [OF rv]
    note step = recvall_backup_loop_step [OF True rv]
    show ?thesis
    proof (cases x)
      case (Inr packet)
      show ?thesis
      proof (cases "packet = []")
        case True
        with step Inr "1.prems" le show ?thesis
          by auto
      next
        case False
        from rv Inr False have lt: "weight (script s1) < weight (script s)"
          by (auto dest: recv_data_weight)
        from rv Inr have "length packet \<le> n - length data"
          by (auto dest: recv_length)
        with True have len: "length (data @ packet) \<le> n"
          by simp
        from step Inr False "1.prems"
        have "recvall_backup_loop s1 n (data @ packet) = (r, s')"
          by simp
        from "1.IH" [OF True rv [symmetric] Inr False this] lt len False show ?thesis
          by auto
      qed
    next
      case (Inl e)
      with step "1.prems" le show ?thesis
        by auto
    qed
  qed
qed

lemma recvall_weight_le:
  "recvall s n = (r, s') \<Longrightarrow> weight (script s') \<le> weight (script s)"
  by (simp add: recvall_def recvall_loop_result)

lemma recvall_weight_less:
  "recvall s n = (Inr (Some d), s') \<Longrightarrow> d \<noteq> [] \<Longrightarrow> weight (script s') < weight (script s)"
  using recvall_loop_result [of s n "clock s" "[]" "Inr (Some d)" s']
  by (auto simp: recvall_def)

lemma recvall_backup_weight_le:
  "recvall_backup s n = (r, s') \<Longrightarrow> weight (script s') \<le> weight (script s)"
  by (simp add: recvall_backup_def recvall_backup_loop_result)

lemma recvall_backup_weight_less:
  "recvall_backup s n = (Inr (Some d), s') \<Longrightarrow> d \<noteq> [] \<Longrightarrow>
   weight (script s') < weight (script s)"
  using recvall_backup_loop_result [of s n "[]" "Inr (Some d)" s']
  by (auto simp: recvall_backup_def)

section \<open>The read loop of one connection\<close>

text \<open>\<^verbatim>\<open>struct.unpack('!I', size_data)[0]\<close>: four bytes, most significant first.\<close>

definition unpack_I :: "bytes \<Rightarrow> exn + nat" where
  "unpack_I b =
     (case b of
        [b0, b1, b2, b3] \<Rightarrow>
          Inr (((of_char b0 * 256 + of_char b1) * 256 + of_char b2) * 256 + of_char b3)
      | _ \<Rightarrow> Inl StructError)"

text \<open>
  How a loop over a connection ends: an exception leaves it, its condition turns false
  or it reaches \<open>break\<close>, or the thread blocks in a queue operation.
\<close>

datatype outcome = Raised exn | Exited | Blocked

text \<open>
  The inner loop of \<open>StreamReceiver.receive_frames\<close> in \<open>stream_server.py\<close>; \<open>run\<close>
  is \<open>self.running\<close>, which this thread never writes:
  \<^verbatim>\<open>
  while self.running:
      size_data = self.recvall(self.current_client, 4)
      if not size_data:
          raise socket.error("Connection lost while reading size")
      frame_size = struct.unpack('!I', size_data)[0]
      if frame_size > 10000000:  # Sanity check: 10MB max
          raise ValueError("Frame size too large")
      frame_data = self.recvall(self.current_client, frame_size)
      if not frame_data:
          raise socket.error("Connection lost while reading frame")
      if frame_queue.full():
          frame_queue.get()
      frame_queue.put(frame_data)
  \<close>
  \<open>socket.error(message)\<close> carries no \<open>errno\<close>.
\<close>

function read_loop :: "bool \<Rightarrow> sock \<Rightarrow> queue \<Rightarrow> outcome \<times> sock \<times> queue" where
  "read_loop run s q =
     (if run
      then (case recvall s 4 of
          (Inl e, s1) \<Rightarrow> (Raised e, s1, q)
        | (Inr None, s1) \<Rightarrow> (Raised (SocketError None), s1, q)
        | (Inr (Some size_data), s1) \<Rightarrow>
            if size_data = [] then (Raised (SocketError None), s1, q)
            else (case unpack_I size_data of
                Inl e \<Rightarrow> (Raised e, s1, q)
              | Inr frame_size \<Rightarrow>
                  if frame_size > 10000000 then (Raised ValueError, s1, q)
                  else (case recvall s1 frame_size of
                      (Inl e, s2) \<Rightarrow> (Raised e, s2, q)
                    | (Inr None, s2) \<Rightarrow> (Raised (SocketError None), s2, q)
                    | (Inr (Some frame_data), s2) \<Rightarrow>
                        if frame_data = [] then (Raised (SocketError None), s2, q)
                        else (case push q frame_data of
                            None \<Rightarrow> (Blocked, s2, q)
                          | Some q' \<Rightarrow> read_loop run s2 q'))))
      else (Exited, s, q))"
  by pat_completeness auto
termination
proof (relation "measure (\<lambda>(run, s, q). weight (script s))", goal_cases)
  case 1
  show ?case by simp
next
  case (2 run s q x s1 r size_data frame_size x' s2 r' frame_data q')
  from 2 have "weight (script s1) < weight (script s)"
    by (auto dest: recvall_weight_less [OF sym])
  moreover from 2 have "weight (script s2) \<le> weight (script s1)"
    by (auto dest: recvall_weight_le [OF sym])
  ultimately show ?case by simp
qed

declare read_loop.simps [simp del]

text \<open>
  The inner loop of \<open>StreamReceiver.receive_frames\<close> in
  \<open>stream_server_working_backup.py\<close>:
  \<^verbatim>\<open>
  while True:
      size_data = self.recvall(client_socket, 4)
      if not size_data:
          break
      frame_size = struct.unpack('!I', size_data)[0]
      frame_data = self.recvall(client_socket, frame_size)
      if not frame_data:
          break
      if frame_queue.full():
          frame_queue.get()
      frame_queue.put(frame_data)
  \<close>
\<close>

function read_loop_backup :: "sock \<Rightarrow> queue \<Rightarrow> outcome \<times> sock \<times> queue" where
  "read_loop_backup s q =
     (case recvall_backup s 4 of
        (Inl e, s1) \<Rightarrow> (Raised e, s1, q)
      | (Inr None, s1) \<Rightarrow> (Exited, s1, q)
      | (Inr (Some size_data), s1) \<Rightarrow>
          if size_data = [] then (Exited, s1, q)
          else (case unpack_I size_data of
              Inl e \<Rightarrow> (Raised e, s1, q)
            | Inr frame_size \<Rightarrow>
                (case recvall_backup s1 frame_size of
                   (Inl e, s2) \<Rightarrow> (Raised e, s2, q)
                 | (Inr None, s2) \<Rightarrow> (Exited, s2, q)
                 | (Inr (Some frame_data), s2) \<Rightarrow>
                     if frame_data = [] then (Exited, s2, q)
                     else (case push q frame_data of
                         None \<Rightarrow> (Blocked, s2, q)
                       | Some q' \<Rightarrow> read_loop_backup s2 q'))))"
  by pat_completeness auto
termination
proof (relation "measure (\<lambda>(s, q). weight (script s))", goal_cases)
  case 1
  show ?case by simp
next
  case (2 s q x s1 r size_data frame_size x' s2 r' frame_data q')
  from 2 have "weight (script s1) < weight (script s)"
    by (auto dest: recvall_backup_weight_less [OF sym])
  moreover from 2 have "weight (script s2) \<le> weight (script s1)"
    by (auto dest: recvall_backup_weight_le [OF sym])
  ultimately show ?case by simp
qed

declare read_loop_backup.simps [simp del]

section \<open>Connections that only deliver data\<close>

text \<open>
  Three views of a script: whether every event delivers a non-empty piece of data, the
  bytes it delivers in order, and the time it takes.
\<close>

fun data_only :: "(nat \<times> recv_event) list \<Rightarrow> bool" where
  "data_only [] = True"
| "data_only ((d, Data bs) # es) = (bs \<noteq> [] \<and> data_only es)"
| "data_only ((d, TimedOut) # es) = False"
| "data_only ((d, Fails e) # es) = False"

fun bytes_of :: "(nat \<times> recv_event) list \<Rightarrow> bytes" where
  "bytes_of [] = []"
| "bytes_of ((d, Data bs) # es) = bs @ bytes_of es"
| "bytes_of ((d, TimedOut) # es) = bytes_of es"
| "bytes_of ((d, Fails e) # es) = bytes_of es"

fun total_delay :: "(nat \<times> recv_event) list \<Rightarrow> nat" where
  "total_delay [] = 0"
| "total_delay ((d, ev) # es) = d + total_delay es"

section \<open>Connections with recv timeouts and interrupted calls\<close>

text \<open>
  The connections a read is meant to survive: every event delivers a non-empty piece of
  data, or is a \<open>recv\<close> that times out (\<open>socket.timeout\<close>, also as errno \<open>ETIMEDOUT\<close>),
  or is a \<open>recv\<close> interrupted by a signal (errno \<open>EINTR\<close>).
\<close>

fun benign :: "(nat \<times> recv_event) list \<Rightarrow> bool" where
  "benign [] = True"
| "benign ((d, Data bs) # es) = (bs \<noteq> [] \<and> benign es)"
| "benign ((d, TimedOut) # es) = benign es"
| "benign ((d, Fails e) # es) = ((e = EINTR \<or> e = ETIMEDOUT) \<and> benign es)"

text \<open>
  Reading \<open>n\<close> bytes from such a script, from the first \<open>recv\<close> on: the time until the
  \<open>n\<close>-th byte has arrived (or the stream has ended), and what is left of the script
  then. A piece that holds more than is asked for is cut, and the rest of it is there
  at once.
\<close>

fun time_to :: "nat \<Rightarrow> (nat \<times> recv_event) list \<Rightarrow> nat" where
  "time_to n [] = 0"
| "time_to n ((d, Data bs) # es) = (if n = 0 then 0 else d + time_to (n - length bs) es)"
| "time_to n ((d, TimedOut) # es) = (if n = 0 then 0 else d + time_to n es)"
| "time_to n ((d, Fails e) # es) = (if n = 0 then 0 else d + time_to n es)"

fun rest_after :: "nat \<Rightarrow> (nat \<times> recv_event) list \<Rightarrow> (nat \<times> recv_event) list" where
  "rest_after n [] = []"
| "rest_after n ((d, Data bs) # es) =
     (if n = 0 then (d, Data bs) # es
      else if length bs \<le> n then rest_after (n - length bs) es
      else (0, Data (drop n bs)) # es)"
| "rest_after n ((d, TimedOut) # es) = (if n = 0 then (d, TimedOut) # es else rest_after n es)"
| "rest_after n ((d, Fails e) # es) = (if n = 0 then (d, Fails e) # es else rest_after n es)"

text \<open>
  The loop of the resilient \<open>recvall\<close> reads the clock once before every \<open>recv\<close>, as long
  as bytes are missing. \<open>last_check n es\<close> is the time, counted from the start of the
  call, at which it does so for the last time when \<open>n\<close> bytes are read from \<open>es\<close>, that
  is, when the last \<open>recv\<close> of the call starts. One \<open>recv\<close> takes at most 8192 bytes,
  so a piece that completes a read of more than 8192 bytes is taken with a second
  \<open>recv\<close>, which starts when the piece has arrived.
\<close>

fun last_check :: "nat \<Rightarrow> (nat \<times> recv_event) list \<Rightarrow> nat" where
  "last_check n [] = 0"
| "last_check n ((d, Data bs) # es) =
     (if n = 0 then 0
      else if length bs < n then d + last_check (n - length bs) es
      else if 8192 < n then d else 0)"
| "last_check n ((d, TimedOut) # es) = (if n = 0 then 0 else d + last_check n es)"
| "last_check n ((d, Fails e) # es) = (if n = 0 then 0 else d + last_check n es)"

text \<open>The socket after \<open>n\<close> bytes have been read from it.\<close>

definition after_read :: "sock \<Rightarrow> nat \<Rightarrow> sock" where
  "after_read s n = s\<lparr>clock := clock s + time_to n (script s), script := rest_after n (script s)\<rparr>"

section \<open>The receiver\<close>

text \<open>
  The state of a \<open>StreamReceiver\<close> of \<open>stream_server.py\<close>: \<open>self.running\<close>,
  \<open>self.server_socket\<close> and \<open>self.current_client\<close> (\<open>None\<close> when there is none). Of the
  listening socket the model keeps whether \<open>bind\<close> and \<open>listen\<close> succeeded and whether it
  has been closed.
\<close>

record listener =
  bound :: bool
  listener_closed :: bool

record receiver =
  bind_port :: nat
  running :: bool
  server_socket :: "listener option"
  current_client :: "sock option"

text \<open>
  \<open>setup_socket\<close>: an old listening socket is shut down and closed, a new one is created,
  bound and put to listen. \<open>bind_ok\<close> says whether \<open>bind\<close> and \<open>listen\<close> succeed; when
  they raise \<open>socket.error\<close>, the method sleeps 5 seconds and returns \<open>False\<close>, and
  \<open>self.server_socket\<close> is left holding the new, unbound socket.
\<close>

definition setup_socket :: "receiver \<Rightarrow> bool \<Rightarrow> nat \<Rightarrow> bool \<times> receiver \<times> nat" where
  "setup_socket r bind_ok now =
     (if bind_ok
      then (True, r\<lparr>server_socket := Some \<lparr>bound = True, listener_closed = False\<rparr>\<rparr>, now)
      else (False, r\<lparr>server_socket := Some \<lparr>bound = False, listener_closed = False\<rparr>\<rparr>,
            now + 5000))"

text \<open>\<open>__init__\<close>: the fields are set, then \<open>setup_socket\<close> is called.\<close>

definition init_receiver :: "nat \<Rightarrow> bool \<Rightarrow> nat \<Rightarrow> receiver \<times> nat" where
  "init_receiver port bind_ok now =
     (case setup_socket
        \<lparr>bind_port = port, running = True, server_socket = None, current_client = None\<rparr>
        bind_ok now of
        (ok, r, now') \<Rightarrow> (r, now'))"

text \<open>
  \<open>cleanup_client\<close>: the client socket, if there is one, is shut down and closed (errors
  are swallowed) and \<open>self.current_client\<close> becomes \<open>None\<close>.
\<close>

definition cleanup_client :: "receiver \<Rightarrow> receiver" where
  "cleanup_client r =
     (case current_client r of None \<Rightarrow> r | Some c \<Rightarrow> r\<lparr>current_client := None\<rparr>)"

text \<open>
  \<open>stop\<close>:
  \<^verbatim>\<open>
  self.running = False
  self.cleanup_client()
  if self.server_socket:
      try: self.server_socket.shutdown(socket.SHUT_RDWR)
      except: pass
      try: self.server_socket.close()
      except: pass
  \<close>
\<close>

definition stop :: "receiver \<Rightarrow> receiver" where
  "stop r =
     (let r1 = cleanup_client (r\<lparr>running := False\<rparr>)
      in case server_socket r1 of
           None \<Rightarrow> r1
         | Some l \<Rightarrow> r1\<lparr>server_socket := Some (l\<lparr>listener_closed := True\<rparr>)\<rparr>)"

text \<open>
  What the world does during one pass of the accept loop: whether a \<open>bind\<close> would succeed,
  how long \<open>accept\<close> waits, and whether it returns a connection (given by the script of
  its socket) or raises. \<open>accept\<close> on a closed or unbound socket raises at once.
\<close>

datatype accept_result = Connects "(nat \<times> recv_event) list" | AcceptFails exn

record pass_env =
  bind_ok :: bool
  wait :: nat
  accepted :: accept_result

definition EINVAL :: nat where
  "EINVAL = 22"

definition accept :: "listener \<Rightarrow> nat \<Rightarrow> pass_env \<Rightarrow> (exn + sock) \<times> nat" where
  "accept l now ev =
     (if listener_closed l then (Inl (SocketError (Some EBADF)), now)
      else if \<not> bound l then (Inl (SocketError (Some EINVAL)), now)
      else (case accepted ev of
          Connects scr \<Rightarrow>
            (Inr \<lparr>closed = False, clock = now + wait ev, script = scr\<rparr>, now + wait ev)
        | AcceptFails e \<Rightarrow> (Inl e, now + wait ev)))"

text \<open>
  One pass of the outer loop of \<open>receive_frames\<close> from \<open>accept\<close> on:
  \<^verbatim>\<open>
  try:
      ...
      self.current_client, addr = self.server_socket.accept()
      self.current_client.settimeout(5)
      try:
          <the read loop>
      except socket.timeout: ...; raise
      except socket.error as e: ...; raise
      except Exception as e: ...; raise
  except Exception as e:
      self.cleanup_client()
      time.sleep(1)  # Prevent tight loop on error
  finally:
      self.cleanup_client()
  \<close>
  The result says whether the thread goes on to the next pass (it does not when it is
  blocked in a queue operation), and gives the receiver, the clock and the queue.
\<close>

definition serve :: "receiver \<Rightarrow> nat \<Rightarrow> queue \<Rightarrow> pass_env \<Rightarrow> bool \<times> receiver \<times> nat \<times> queue" where
  "serve r now q ev =
     (case server_socket r of
        None \<Rightarrow> (True, cleanup_client (cleanup_client r), now + 1000, q)
      | Some l \<Rightarrow>
          (case accept l now ev of
             (Inl e, now1) \<Rightarrow> (True, cleanup_client (cleanup_client r), now1 + 1000, q)
           | (Inr c, now1) \<Rightarrow>
               (case read_loop (running r) c q of
                  (Raised e, c', q') \<Rightarrow>
                    (True, cleanup_client (cleanup_client (r\<lparr>current_client := Some c'\<rparr>)),
                     clock c' + 1000, q')
                | (Exited, c', q') \<Rightarrow>
                    (True, cleanup_client (r\<lparr>current_client := Some c'\<rparr>), clock c', q')
                | (Blocked, c', q') \<Rightarrow>
                    (False, r\<lparr>current_client := Some c'\<rparr>, clock c', q'))))"

text \<open>
  The whole pass, with its first statement:
  \<^verbatim>\<open>
  if not self.server_socket:
      if not self.setup_socket():
          continue
  \<close>
  (\<open>continue\<close> runs the \<open>finally\<close> clause).
\<close>

definition pass :: "receiver \<Rightarrow> nat \<Rightarrow> queue \<Rightarrow> pass_env \<Rightarrow> bool \<times> receiver \<times> nat \<times> queue" where
  "pass r now q ev =
     (case server_socket r of
        None \<Rightarrow>
          (case setup_socket r (bind_ok ev) now of
             (ok, r1, now1) \<Rightarrow>
               if \<not> ok then (True, cleanup_client r1, now1, q) else serve r1 now1 q ev)
      | Some l \<Rightarrow> serve r now q ev)"

text \<open>
  \<open>receive_frames\<close>: \<^verbatim>\<open>while self.running:\<close> around the pass, run against the list of
  what the world does in each pass. When the list is used up the thread is waiting in
  \<open>accept\<close>.
\<close>

fun receive_frames :: "receiver \<Rightarrow> nat \<Rightarrow> queue \<Rightarrow> pass_env list \<Rightarrow> receiver \<times> nat \<times> queue" where
  "receive_frames r now q [] = (r, now, q)"
| "receive_frames r now q (ev # evs) =
     (if running r
      then (case pass r now q ev of
          (go_on, r', now', q') \<Rightarrow>
            if go_on then receive_frames r' now' q' evs else (r', now', q'))
      else (r, now, q))"

text \<open>
  One connection of \<open>stream_server_working_backup.py\<close>, from after \<open>accept\<close>:
  \<^verbatim>\<open>
  try:
      <the read loop>
  except socket.error as e:
      app.logger.error(f"Socket error: {e}")
  finally:
      client_socket.close()
      app.logger.info("Connection closed")
  \<close>
  \<open>socket.timeout\<close> is a \<open>socket.error\<close>; any other exception goes on to the caller.
\<close>

definition connection_backup :: "sock \<Rightarrow> queue \<Rightarrow> outcome \<times> sock \<times> queue" where
  "connection_backup c q =
     (case read_loop_backup c q of
        (Raised SocketTimeout, c', q') \<Rightarrow> (Exited, c'\<lparr>closed := True\<rparr>, q')
      | (Raised (SocketError e), c', q') \<Rightarrow> (Exited, c'\<lparr>closed := True\<rparr>, q')
      | (out, c', q') \<Rightarrow> (out, c'\<lparr>closed := True\<rparr>, q'))"

section \<open>The status endpoint\<close>

text \<open>
  \<^verbatim>\<open>
  return {
      'queue_size': frame_queue.qsize(),
      'server_running': receiver.running if receiver else False
  }
  \<close>
\<close>

record status_response =
  queue_size :: nat
  server_running :: bool

definition status :: "queue \<Rightarrow> receiver option \<Rightarrow> status_response" where
  "status q rcv =
     \<lparr>queue_size = qsize q,
      server_running = (case rcv of None \<Rightarrow> False | Some r \<Rightarrow> running r)\<rparr>"

section \<open>The streaming generator\<close>

text \<open>
  \<open>generate_frames\<close> (the loop is the same in both files; the \<open>try\<close> around it in
  \<open>stream_server.py\<close> catches exceptions, and no operation of the body raises one):
  \<^verbatim>\<open>
  while True:
      if not frame_queue.empty():
          frame = frame_queue.get()
          yield (b'--frame\r\n'
                 b'Content-Type: image/jpeg\r\n\r\n' + frame + b'\r\n')
      else:
          time.sleep(0.01)
  \<close>
  One pass of the loop yields a chunk or sleeps (the time in milliseconds); a \<open>get\<close>
  that blocks never comes back. The generator is the stream of what its passes do.
\<close>

datatype action = Yield bytes | Sleep nat | Hang

definition CRLF :: bytes where
  "CRLF = [CHR 0x0D, CHR 0x0A]"

definition multipart_chunk :: "bytes \<Rightarrow> bytes" where
  "multipart_chunk frame =
     ((''--frame'' @ CRLF) @ (''Content-Type: image/jpeg'' @ CRLF @ CRLF)) @ frame @ CRLF"

definition generate_pass :: "queue \<Rightarrow> action \<times> queue" where
  "generate_pass q =
     (case try_pop q of
        (Got frame, q') \<Rightarrow> (Yield (multipart_chunk frame), q')
      | (Empty, q') \<Rightarrow> (Sleep 10, q')
      | (WouldBlock, q') \<Rightarrow> (Hang, q'))"

primcorec generate_frames :: "queue \<Rightarrow> action stream" where
  "generate_frames q = SCons (fst (generate_pass q)) (generate_frames (snd (generate_pass q)))"

section \<open>Properties of the frame queue\<close>

lemma push_full:
  "full_q q \<Longrightarrow> qsize q \<le> maxsize q \<Longrightarrow> push q x = Some (q\<lparr>items := tl (items q) @ [x]\<rparr>)"
  by (cases "items q") (auto simp: push_def full_q_def get_q_def put_q_def qsize_def)

lemma push_not_full:
  "\<not> full_q q \<Longrightarrow> push q x = Some (q\<lparr>items := items q @ [x]\<rparr>)"
  by (simp add: push_def put_q_def)

lemma push_bounded:
  assumes "0 < maxsize q" and "qsize q \<le> maxsize q"
  shows "push q x = Some (q\<lparr>items := drop (Suc (qsize q) - maxsize q) (items q @ [x])\<rparr>)"
proof (cases "full_q q")
  case True
  with assms have len: "length (items q) = maxsize q"
    by (simp add: full_q_def qsize_def)
  with assms obtain y ys where ys: "items q = y # ys"
    by (cases "items q") auto
  from len have "Suc (qsize q) - maxsize q = 1"
    by (simp add: qsize_def)
  with True assms ys show ?thesis
    by (simp add: push_full)
next
  case False
  with assms have "Suc (qsize q) - maxsize q = 0"
    by (simp add: full_q_def)
  with False show ?thesis
    by (simp add: push_not_full)
qed

lemma pushes_bounded:
  "0 < maxsize q \<Longrightarrow> qsize q \<le> maxsize q \<Longrightarrow>
   pushes q ps = Some (q\<lparr>items := drop (qsize q + length ps - maxsize q) (items q @ ps)\<rparr>)"
proof (induction ps arbitrary: q)
  case Nil
  then show ?case by (simp add: qsize_def)
next
  case (Cons p ps)
  let ?q' = "q\<lparr>items := drop (Suc (qsize q) - maxsize q) (items q @ [p])\<rparr>"
  have step: "push q p = Some ?q'"
    using Cons.prems by (rule push_bounded)
  have size': "qsize ?q' = Suc (qsize q) - (Suc (qsize q) - maxsize q)"
    by (simp add: qsize_def)
  have bound': "qsize ?q' \<le> maxsize ?q'" and pos': "0 < maxsize ?q'"
    using Cons.prems size' by simp_all
  have "pushes ?q' ps =
      Some (?q'\<lparr>items := drop (qsize ?q' + length ps - maxsize ?q') (items ?q' @ ps)\<rparr>)"
    using pos' bound' by (rule Cons.IH)
  moreover have "drop (qsize ?q' + length ps - maxsize q)
        (drop (Suc (qsize q) - maxsize q) (items q @ [p]) @ ps)
      = drop (qsize q + length (p # ps) - maxsize q) (items q @ p # ps)"
  proof (cases "qsize q < maxsize q")
    case True
    then show ?thesis by (simp add: qsize_def)
  next
    case False
    with Cons.prems have eq: "length (items q) = maxsize q"
      by (simp add: qsize_def)
    with Cons.prems obtain y ys where ys: "items q = y # ys"
      by (cases "items q") auto
    from eq ys show ?thesis
      by (simp add: qsize_def)
  qed
  ultimately show ?case
    using step by simp
qed

lemma pops_all:
  "pops (length (items q) + m) q = (map Got (items q) @ replicate m Empty, q\<lparr>items := []\<rparr>)"
proof (induction "items q" arbitrary: q)
  case Nil
  have "pops m q = (replicate m Empty, q)" for m
    using Nil by (induction m) (simp_all add: try_pop_def empty_q_def qsize_def)
  with Nil show ?case by simp
next
  case (Cons x xs)
  have tp: "try_pop q = (Got x, q\<lparr>items := xs\<rparr>)"
    using Cons.hyps(2) [symmetric]
    by (simp add: try_pop_def empty_q_def qsize_def get_q_def)
  have "pops (length (items (q\<lparr>items := xs\<rparr>)) + m) (q\<lparr>items := xs\<rparr>)
      = (map Got (items (q\<lparr>items := xs\<rparr>)) @ replicate m Empty, q\<lparr>items := xs, items := []\<rparr>)"
    by (rule Cons.hyps(1)) simp
  with tp Cons.hyps(2) [symmetric] show ?case
    by simp
qed

section \<open>Facts about connections that only deliver data\<close>

lemma data_only_cases:
  assumes "data_only es"
  obtains (eof) "es = []"
    | (chunk) d bs rest where "es = (d, Data bs) # rest" "bs \<noteq> []" "data_only rest"
  using assms by (cases es rule: data_only.cases) auto

lemma data_only_no_bytes: "data_only es \<Longrightarrow> bytes_of es = [] \<Longrightarrow> es = []"
  by (erule data_only_cases) auto

lemma recv_eof: "\<not> closed s \<Longrightarrow> script s = [] \<Longrightarrow> recv s k = (Inr [], s)"
  by (simp add: recv_def)

lemma recv_chunk:
  "\<not> closed s \<Longrightarrow> script s = (d, Data bs) # rest \<Longrightarrow>
   recv s k =
     (if length bs \<le> k then (Inr bs, s\<lparr>clock := clock s + d, script := rest\<rparr>)
      else (Inr (take k bs), s\<lparr>clock := clock s + d, script := (0, Data (drop k bs)) # rest\<rparr>))"
  by (simp add: recv_def)

lemma recvall_backup_loop_stream:
  "\<not> closed s \<Longrightarrow> data_only (script s) \<Longrightarrow> length data \<le> n \<Longrightarrow>
   \<exists>s'. recvall_backup_loop s n data =
          (if n \<le> length data + length (bytes_of (script s))
           then Inr (Some (data @ take (n - length data) (bytes_of (script s))))
           else Inr None, s')
      \<and> \<not> closed s' \<and> data_only (script s')
      \<and> bytes_of (script s') = drop (n - length data) (bytes_of (script s))
      \<and> clock s \<le> clock s'
      \<and> clock s' + total_delay (script s') = clock s + total_delay (script s)"
proof (induction s n data rule: recvall_backup_loop.induct)
  case (1 s n data)
  show ?case
  proof (cases "length data < n")
    case False
    with "1.prems" show ?thesis
      by (simp add: recvall_backup_loop_exit)
  next
    case True
    from "1.prems"(2) show ?thesis
    proof (cases rule: data_only_cases)
      case eof
      with True "1.prems" show ?thesis
        by (simp add: recvall_backup_loop_step [OF True recv_eof])
    next
      case (chunk d bs rest)
      let ?k = "n - length data"
      show ?thesis
      proof (cases "length bs \<le> ?k")
        case whole: True
        let ?s1 = "s\<lparr>clock := clock s + d, script := rest\<rparr>"
        from "1.prems" chunk whole have rv: "recv s ?k = (Inr bs, ?s1)"
          by (simp add: recv_chunk)
        from "1.prems" chunk whole True
        have "\<exists>s'. recvall_backup_loop ?s1 n (data @ bs) =
          (if n \<le> length (data @ bs) + length (bytes_of (script ?s1))
           then Inr (Some ((data @ bs) @ take (n - length (data @ bs)) (bytes_of (script ?s1))))
           else Inr None, s')
          \<and> \<not> closed s' \<and> data_only (script s')
          \<and> bytes_of (script s') = drop (n - length (data @ bs)) (bytes_of (script ?s1))
          \<and> clock ?s1 \<le> clock s'
          \<and> clock s' + total_delay (script s') = clock ?s1 + total_delay (script ?s1)"
          by (intro "1.IH" [OF True rv [symmetric] refl]) simp_all
        then obtain s' where s': "recvall_backup_loop ?s1 n (data @ bs) =
          (if n \<le> length (data @ bs) + length (bytes_of rest)
           then Inr (Some ((data @ bs) @ take (n - length (data @ bs)) (bytes_of rest)))
           else Inr None, s')"
          "\<not> closed s'" "data_only (script s')"
          "bytes_of (script s') = drop (n - length (data @ bs)) (bytes_of rest)"
          "clock s + d \<le> clock s'"
          "clock s' + total_delay (script s') = clock s + d + total_delay rest"
          by auto
        from chunk whole True s' show ?thesis
          by (auto simp: recvall_backup_loop_step [OF True rv])
      next
        case part: False
        let ?s1 = "s\<lparr>clock := clock s + d, script := (0, Data (drop ?k bs)) # rest\<rparr>"
        from "1.prems" chunk part have rv: "recv s ?k = (Inr (take ?k bs), ?s1)"
          by (simp add: recv_chunk)
        from True part have ne: "take ?k bs \<noteq> []"
          by auto
        from True part have full: "\<not> length (data @ take ?k bs) < n"
          by simp
        from "1.prems" chunk part True ne show ?thesis
          by (auto simp: recvall_backup_loop_step [OF True rv]
              recvall_backup_loop_exit [OF full])
      qed
    qed
  qed
qed

lemma recvall_backup_loop_split:
  assumes "\<not> closed s" and "script s = (d, Data bs) # rest"
    and "0 < k" and "k < length bs" and "length data + k \<le> n"
  shows "recvall_backup_loop s n data =
     recvall_backup_loop (s\<lparr>clock := clock s + d, script := (0, Data (drop k bs)) # rest\<rparr>) n
       (data @ take k bs)"
proof -
  let ?need = "n - length data"
  let ?s1 = "s\<lparr>clock := clock s + d, script := (0, Data (drop k bs)) # rest\<rparr>"
  from assms have lt: "length data < n"
    by simp
  show ?thesis
  proof (cases "k = ?need")
    case True
    with assms have rv: "recv s ?need = (Inr (take k bs), ?s1)"
      by (simp add: recv_chunk)
    from assms have ne: "take k bs \<noteq> []"
      by auto
    from True assms ne show ?thesis
      by (simp add: recvall_backup_loop_step [OF lt rv])
  next
    case False
    with assms have lt': "length (data @ take k bs) < n"
      by simp
    have c1: "\<not> closed ?s1" and sc1: "script ?s1 = (0, Data (drop k bs)) # rest"
      using assms by simp_all
    show ?thesis
    proof (cases "length bs \<le> ?need")
      case whole: True
      let ?s2 = "s\<lparr>clock := clock s + d, script := rest\<rparr>"
      from assms whole have rv: "recv s ?need = (Inr bs, ?s2)"
        by (simp add: recv_chunk)
      from assms whole have rv': "recv ?s1 (n - length (data @ take k bs)) = (Inr (drop k bs), ?s2)"
        by (simp add: recv_chunk [OF c1 sc1])
      from assms have "bs \<noteq> []" "drop k bs \<noteq> []"
        by auto
      then show ?thesis
        by (simp add: recvall_backup_loop_step [OF lt rv] recvall_backup_loop_step [OF lt' rv'])
    next
      case part: False
      let ?s2 = "s\<lparr>clock := clock s + d, script := (0, Data (drop ?need bs)) # rest\<rparr>"
      from assms part have rv: "recv s ?need = (Inr (take ?need bs), ?s2)"
        by (simp add: recv_chunk)
      from assms part False have nk: "n - length (data @ take k bs) = ?need - k"
        by simp
      from assms part False have "\<not> length (drop k bs) \<le> ?need - k"
        by simp
      moreover from assms part False have "drop (?need - k) (drop k bs) = drop ?need bs"
        by simp
      ultimately
      have rv': "recv ?s1 (n - length (data @ take k bs))
          = (Inr (take (?need - k) (drop k bs)), ?s2)"
        unfolding nk by (simp add: recv_chunk [OF c1 sc1])
      from lt part have ne: "take ?need bs \<noteq> []"
        by auto
      from assms part False have ne': "take (?need - k) (drop k bs) \<noteq> []"
        by auto
      have "take k bs @ take (?need - k) (drop k bs) = take ?need bs"
        using take_add [of k "?need - k" bs] assms False by (simp add: add.commute)
      with ne ne' show ?thesis
        by (simp add: recvall_backup_loop_step [OF lt rv] recvall_backup_loop_step [OF lt' rv'])
    qed
  qed
qed

text \<open>
  On a connection that only delivers data, a call of the resilient primitive that returns
  returns what the backup primitive returns, and leaves the socket in the same state; a
  call that raises raises the timeout.
\<close>

lemma recvall_loop_backup_agree:
  "\<not> closed s \<Longrightarrow> data_only (script s) \<Longrightarrow> recvall_loop s n st data = (r, s') \<Longrightarrow>
   (case r of Inr x \<Rightarrow> recvall_backup_loop s n data = (Inr x, s') | Inl e \<Rightarrow> e = SocketTimeout)"
proof (induction s n st data rule: recvall_loop.induct)
  case (1 s n st data)
  show ?case
  proof (cases "length data < n \<and> clock s - st < 10000")
    case False
    with "1.prems" show ?thesis
      by (auto simp: recvall_loop_exit recvall_backup_loop_exit split: if_splits)
  next
    case True
    then have lt: "length data < n" and tm: "clock s - st < 10000"
      by simp_all
    let ?k = "min (n - length data) 8192"
    from "1.prems"(2) show ?thesis
    proof (cases rule: data_only_cases)
      case eof
      with "1.prems" lt tm show ?thesis
        by (auto simp: recvall_loop_step [OF lt tm recv_eof]
            recvall_backup_loop_step [OF lt recv_eof])
    next
      case (chunk d bs rest)
      show ?thesis
      proof (cases "length bs \<le> ?k")
        case whole: True
        let ?s1 = "s\<lparr>clock := clock s + d, script := rest\<rparr>"
        from "1.prems" chunk whole have rv: "recv s ?k = (Inr bs, ?s1)"
          by (simp add: recv_chunk)
        from "1.prems" chunk whole have rvb: "recv s (n - length data) = (Inr bs, ?s1)"
          by (simp add: recv_chunk)
        from "1.prems"(3) chunk have run: "recvall_loop ?s1 n st (data @ bs) = (r, s')"
          by (simp add: recvall_loop_step [OF lt tm rv])
        have "case r of Inr x \<Rightarrow> recvall_backup_loop ?s1 n (data @ bs) = (Inr x, s')
            | Inl e \<Rightarrow> e = SocketTimeout"
          using "1.prems"(1) chunk run
          by (intro "1.IH"(3) [OF True rv [symmetric] refl]) simp_all
        with chunk show ?thesis
          by (simp add: recvall_backup_loop_step [OF lt rvb] split: sum.splits)
      next
        case part: False
        let ?s1 = "s\<lparr>clock := clock s + d, script := (0, Data (drop ?k bs)) # rest\<rparr>"
        from "1.prems" chunk part have rv: "recv s ?k = (Inr (take ?k bs), ?s1)"
          by (auto simp: recv_chunk)
        from lt part have ne: "take ?k bs \<noteq> []"
          by auto
        from ne have unf: "recvall_loop s n st data = recvall_loop ?s1 n st (data @ take ?k bs)"
          by (subst recvall_loop_step [OF lt tm rv]) (simp only: sum.case if_False)
        with "1.prems"(3) have run: "recvall_loop ?s1 n st (data @ take ?k bs) = (r, s')"
          by simp
        have "case r of Inr x \<Rightarrow> recvall_backup_loop ?s1 n (data @ take ?k bs) = (Inr x, s')
            | Inl e \<Rightarrow> e = SocketTimeout"
          using "1.prems"(1) chunk run part ne
          by (intro "1.IH"(3) [OF True rv [symmetric] refl]) simp_all
        moreover have "recvall_backup_loop s n data
            = recvall_backup_loop ?s1 n (data @ take ?k bs)"
        proof (rule recvall_backup_loop_split [OF "1.prems"(1) chunk(1)])
          from lt show "0 < ?k" by simp
          from part show "?k < length bs" by (simp only: not_le)
          from lt show "length data + ?k \<le> n" by simp
        qed
        ultimately show ?thesis
          by (simp split: sum.splits)
      qed
    qed
  qed
qed

text \<open>A call whose data all arrives before the ten seconds are over does not raise.\<close>

lemma recvall_loop_timely:
  "\<not> closed s \<Longrightarrow> data_only (script s) \<Longrightarrow> st \<le> clock s \<Longrightarrow>
   clock s + total_delay (script s) < st + 10000 \<Longrightarrow>
   \<exists>x s'. recvall_loop s n st data = (Inr x, s')"
proof (induction s n st data rule: recvall_loop.induct)
  case (1 s n st data)
  from "1.prems" have tm: "clock s - st < 10000"
    by simp
  show ?case
  proof (cases "length data < n")
    case False
    then show ?thesis
      by (simp add: recvall_loop_exit)
  next
    case lt: True
    with tm have True: "length data < n \<and> clock s - st < 10000"
      by simp
    let ?k = "min (n - length data) 8192"
    from "1.prems"(2) show ?thesis
    proof (cases rule: data_only_cases)
      case eof
      with "1.prems" show ?thesis
        by (simp add: recvall_loop_step [OF lt tm recv_eof])
    next
      case (chunk d bs rest)
      show ?thesis
      proof (cases "length bs \<le> ?k")
        case whole: True
        let ?s1 = "s\<lparr>clock := clock s + d, script := rest\<rparr>"
        from "1.prems" chunk whole have rv: "recv s ?k = (Inr bs, ?s1)"
          by (simp add: recv_chunk)
        have "\<exists>x s'. recvall_loop ?s1 n st (data @ bs) = (Inr x, s')"
          using "1.prems" chunk
          by (intro "1.IH"(3) [OF True rv [symmetric] refl]) simp_all
        with chunk show ?thesis
          by (simp add: recvall_loop_step [OF lt tm rv])
      next
        case part: False
        let ?s1 = "s\<lparr>clock := clock s + d, script := (0, Data (drop ?k bs)) # rest\<rparr>"
        from "1.prems" chunk part have rv: "recv s ?k = (Inr (take ?k bs), ?s1)"
          by (auto simp: recv_chunk)
        from lt part have ne: "take ?k bs \<noteq> []"
          by auto
        have "\<exists>x s'. recvall_loop ?s1 n st (data @ take ?k bs) = (Inr x, s')"
          using "1.prems" chunk part ne
          by (intro "1.IH"(3) [OF True rv [symmetric] refl]) simp_all
        moreover from ne
        have "recvall_loop s n st data = recvall_loop ?s1 n st (data @ take ?k bs)"
          by (subst recvall_loop_step [OF lt tm rv]) (simp only: sum.case if_False)
        ultimately show ?thesis
          by simp
      qed
    qed
  qed
qed

lemma recvall_timely_eq:
  assumes "\<not> closed s" and "data_only (script s)" and "total_delay (script s) < 10000"
  shows "recvall s n = recvall_backup s n"
proof -
  from assms obtain x s' where run: "recvall_loop s n (clock s) [] = (Inr x, s')"
    using recvall_loop_timely [of s "clock s" n "[]"] by auto
  from recvall_loop_backup_agree [OF assms(1,2) run] run show ?thesis
    by (simp add: recvall_def recvall_backup_def)
qed

lemma recvall_backup_stream:
  assumes "\<not> closed s" and "data_only (script s)"
  shows "\<exists>s'. recvall_backup s n =
          (if n \<le> length (bytes_of (script s))
           then Inr (Some (take n (bytes_of (script s)))) else Inr None, s')
      \<and> \<not> closed s' \<and> data_only (script s')
      \<and> bytes_of (script s') = drop n (bytes_of (script s))
      \<and> clock s \<le> clock s'
      \<and> clock s' + total_delay (script s') = clock s + total_delay (script s)"
  using recvall_backup_loop_stream [OF assms, of "[]" n]
  by (auto simp: recvall_backup_def)

section \<open>Facts about the read loops and the receiver\<close>

lemma unpack_I_length: "unpack_I hdr = Inr n \<Longrightarrow> length hdr = 4"
  by (auto simp: unpack_I_def split: list.splits)

lemma recvall_zero: "recvall s 0 = (Inr (Some []), s)"
  by (simp add: recvall_def recvall_loop_exit)

lemma recvall_backup_zero: "recvall_backup s 0 = (Inr (Some []), s)"
  by (simp add: recvall_backup_def recvall_backup_loop_exit)

lemma read_loop_stopped: "read_loop False s q = (Exited, s, q)"
  by (simp add: read_loop.simps)

lemma read_loop_prefix:
  assumes "recvall s 4 = (Inr (Some hdr), s1)" and "unpack_I hdr = Inr n"
  shows "read_loop True s q =
     (if n > 10000000 then (Raised ValueError, s1, q)
      else (case recvall s1 n of
          (Inl e, s2) \<Rightarrow> (Raised e, s2, q)
        | (Inr None, s2) \<Rightarrow> (Raised (SocketError None), s2, q)
        | (Inr (Some frame_data), s2) \<Rightarrow>
            if frame_data = [] then (Raised (SocketError None), s2, q)
            else (case push q frame_data of
                None \<Rightarrow> (Blocked, s2, q)
              | Some q' \<Rightarrow> read_loop True s2 q')))"
proof -
  from assms(2) have "hdr \<noteq> []"
    by (auto dest: unpack_I_length)
  with assms show ?thesis
    by (subst read_loop.simps) simp
qed

lemma read_loop_backup_prefix:
  assumes "recvall_backup s 4 = (Inr (Some hdr), s1)" and "unpack_I hdr = Inr n"
  shows "read_loop_backup s q =
     (case recvall_backup s1 n of
        (Inl e, s2) \<Rightarrow> (Raised e, s2, q)
      | (Inr None, s2) \<Rightarrow> (Exited, s2, q)
      | (Inr (Some frame_data), s2) \<Rightarrow>
          if frame_data = [] then (Exited, s2, q)
          else (case push q frame_data of
              None \<Rightarrow> (Blocked, s2, q)
            | Some q' \<Rightarrow> read_loop_backup s2 q'))"
proof -
  from assms(2) have "hdr \<noteq> []"
    by (auto dest: unpack_I_length)
  with assms show ?thesis
    by (subst read_loop_backup.simps) simp
qed

lemma read_loop_eof:
  "recvall s 4 = (Inr None, s1) \<Longrightarrow> read_loop True s q = (Raised (SocketError None), s1, q)"
  by (subst read_loop.simps) simp

lemma read_loop_backup_eof:
  "recvall_backup s 4 = (Inr None, s1) \<Longrightarrow> read_loop_backup s q = (Exited, s1, q)"
  by (subst read_loop_backup.simps) simp

lemma cleanup_client_twice:
  "cleanup_client (cleanup_client (r\<lparr>current_client := Some c\<rparr>))
     = (r::receiver)\<lparr>current_client := None\<rparr>"
  by (simp add: cleanup_client_def)

lemma serve_raised:
  assumes "server_socket (r::receiver) = Some l" and "accept l now ev = (Inr c, now1)"
    and "read_loop (running r) c q = (Raised e, c', q')"
  shows "serve r now q ev = (True, r\<lparr>current_client := None\<rparr>, clock c' + 1000, q')"
  using assms by (simp add: serve_def cleanup_client_twice)

lemma recvall_stream:
  assumes "\<not> closed s" and "data_only (script s)" and "total_delay (script s) < 10000"
  shows "\<exists>s'. recvall s n =
          (if n \<le> length (bytes_of (script s))
           then Inr (Some (take n (bytes_of (script s)))) else Inr None, s')
      \<and> \<not> closed s' \<and> data_only (script s')
      \<and> bytes_of (script s') = drop n (bytes_of (script s))
      \<and> total_delay (script s') < 10000
      \<and> clock s' + total_delay (script s') = clock s + total_delay (script s)"
proof -
  from recvall_backup_stream [OF assms(1,2), of n] obtain s' where
    s': "recvall_backup s n =
          (if n \<le> length (bytes_of (script s))
           then Inr (Some (take n (bytes_of (script s)))) else Inr None, s')"
      "\<not> closed s'" "data_only (script s')"
      "bytes_of (script s') = drop n (bytes_of (script s))"
      "clock s \<le> clock s'"
      "clock s' + total_delay (script s') = clock s + total_delay (script s)"
    by blast
  from s'(5,6) assms(3) have "total_delay (script s') < 10000"
    by simp
  with s' show ?thesis
    unfolding recvall_timely_eq [OF assms] by blast
qed

lemma drained:
  assumes "\<not> closed (s'::sock)" and "data_only (script s')" and "bytes_of (script s') = []"
    and "clock s' + total_delay (script s') = t" and "\<not> closed (s::sock)"
  shows "s' = s\<lparr>clock := t, script := []\<rparr>"
proof -
  from assms(2,3) have "script s' = []"
    by (rule data_only_no_bytes)
  with assms show ?thesis
    by (cases s, cases s') simp
qed

lemma read_loop_backup_one_frame:
  assumes "\<not> closed s" and "data_only (script s)"
    and "bytes_of (script s) = hdr @ payload" and "unpack_I hdr = Inr (length payload)"
    and "payload \<noteq> []" and "push q payload = Some q'"
  shows "read_loop_backup s q =
     (Exited, s\<lparr>clock := clock s + total_delay (script s), script := []\<rparr>, q')"
proof -
  from assms(4) have len: "length hdr = 4"
    by (rule unpack_I_length)
  from recvall_backup_stream [OF assms(1,2), of 4] assms(3) len obtain s1 where
    s1: "recvall_backup s 4 = (Inr (Some hdr), s1)" "\<not> closed s1" "data_only (script s1)"
      "bytes_of (script s1) = payload"
      "clock s1 + total_delay (script s1) = clock s + total_delay (script s)"
    by auto
  from recvall_backup_stream [OF s1(2,3), of "length payload"] s1(4,5) obtain s2 where
    s2: "recvall_backup s1 (length payload) = (Inr (Some payload), s2)" "\<not> closed s2"
      "data_only (script s2)" "bytes_of (script s2) = []"
      "clock s2 + total_delay (script s2) = clock s + total_delay (script s)"
    by auto
  from s2(2-5) assms(1)
  have s2_eq: "s2 = s\<lparr>clock := clock s + total_delay (script s), script := []\<rparr>"
    by (rule drained)
  from s2(3,4) have "script s2 = []"
    by (rule data_only_no_bytes)
  with s2(2) have "recvall_backup s2 4 = (Inr None, s2)"
    by (simp add: recvall_backup_def recvall_backup_loop_step [OF _ recv_eof])
  then have "read_loop_backup s2 q' = (Exited, s2, q')"
    by (rule read_loop_backup_eof)
  with s2(1) assms(5,6) s2_eq show ?thesis
    by (simp add: read_loop_backup_prefix [OF s1(1) assms(4)])
qed

lemma read_loop_one_frame:
  assumes "\<not> closed s" and "data_only (script s)" and "total_delay (script s) < 10000"
    and "bytes_of (script s) = hdr @ payload" and "unpack_I hdr = Inr (length payload)"
    and "payload \<noteq> []" and "length payload \<le> 10000000" and "push q payload = Some q'"
  shows "read_loop True s q =
     (Raised (SocketError None),
      s\<lparr>clock := clock s + total_delay (script s), script := []\<rparr>, q')"
proof -
  from assms(5) have len: "length hdr = 4"
    by (rule unpack_I_length)
  from recvall_stream [OF assms(1-3), of 4] assms(4) len obtain s1 where
    s1: "recvall s 4 = (Inr (Some hdr), s1)" "\<not> closed s1" "data_only (script s1)"
      "total_delay (script s1) < 10000"
      "bytes_of (script s1) = payload"
      "clock s1 + total_delay (script s1) = clock s + total_delay (script s)"
    by auto
  from recvall_stream [OF s1(2-4), of "length payload"] s1(5,6) obtain s2 where
    s2: "recvall s1 (length payload) = (Inr (Some payload), s2)" "\<not> closed s2"
      "data_only (script s2)" "bytes_of (script s2) = []"
      "clock s2 + total_delay (script s2) = clock s + total_delay (script s)"
    by auto
  from s2(2-5) assms(1)
  have s2_eq: "s2 = s\<lparr>clock := clock s + total_delay (script s), script := []\<rparr>"
    by (rule drained)
  from s2(3,4) have "script s2 = []"
    by (rule data_only_no_bytes)
  with s2(2) have "recvall s2 4 = (Inr None, s2)"
    by (simp add: recvall_def recvall_loop_step [OF _ _ recv_eof])
  then have "read_loop True s2 q' = (Raised (SocketError None), s2, q')"
    by (rule read_loop_eof)
  with s2(1) assms(6-8) s2_eq show ?thesis
    by (simp add: read_loop_prefix [OF s1(1) assms(5)])
qed

lemma unpack_I_total: "length hdr = 4 \<Longrightarrow> \<exists>n. unpack_I hdr = Inr n"
  by (auto simp: unpack_I_def split: list.splits)

lemma recvall_backup_keeps_data_only:
  assumes "\<not> closed s" and "data_only (script s)" and "recvall_backup s n = (r, s')"
  shows "\<not> closed s' \<and> data_only (script s')"
  using recvall_backup_stream [OF assms(1,2), of n] assms(3) by auto

lemma recvall_backup_agree:
  assumes "\<not> closed s" and "data_only (script s)" and "recvall s n = (r, s')"
  shows "case r of Inr x \<Rightarrow> recvall_backup s n = (Inr x, s') | Inl e \<Rightarrow> e = SocketTimeout"
  using recvall_loop_backup_agree [OF assms(1,2), of n "clock s" "[]" r s'] assms(3)
  by (simp add: recvall_def recvall_backup_def split: sum.splits)

lemma recvall_length:
  "recvall s n = (Inr (Some d), s') \<Longrightarrow> length d = n"
  using recvall_loop_result [of s n "clock s" "[]" "Inr (Some d)" s']
  by (simp add: recvall_def)

lemma recvall_backup_length:
  "recvall_backup s n = (Inr (Some d), s') \<Longrightarrow> length d = n"
  using recvall_backup_loop_result [of s n "[]" "Inr (Some d)" s']
  by (simp add: recvall_backup_def)

lemma read_loop_recv_raises:
  "recvall s 4 = (Inl e, s1) \<Longrightarrow> read_loop True s q = (Raised e, s1, q)"
  by (subst read_loop.simps) simp

lemma read_loops_agree_run:
  "\<not> closed s \<Longrightarrow> data_only (script s) \<Longrightarrow> run \<Longrightarrow>
   read_loop run s q = (Raised (SocketError None), s', q') \<Longrightarrow>
   read_loop_backup s q = (Exited, s', q')"
proof (induction run s q rule: read_loop.induct)
  case (1 run s q)
  from "1.prems"(3) have run: "run = True"
    by simp
  note result = "1.prems"(4) [unfolded run]
  obtain x s1 where rv: "recvall s 4 = (x, s1)"
    by (cases "recvall s 4")
  note agree1 = recvall_backup_agree [OF "1.prems"(1,2) rv]
  show ?case
  proof (cases x)
    case (Inl e)
    with agree1 rv result show ?thesis
      by (simp add: read_loop_recv_raises)
  next
    case (Inr y)
    with agree1 have rvb: "recvall_backup s 4 = (Inr y, s1)"
      by simp
    note inv1 = recvall_backup_keeps_data_only [OF "1.prems"(1,2) rvb]
    show ?thesis
    proof (cases y)
      case None
      with rv Inr rvb result show ?thesis
        by (simp add: read_loop_eof read_loop_backup_eof)
    next
      case (Some hdr)
      with rv Inr have "length hdr = 4"
        by (auto dest: recvall_length)
      then obtain n where n: "unpack_I hdr = Inr n"
        using unpack_I_total [of hdr] by auto
      from \<open>length hdr = 4\<close> have ne: "hdr \<noteq> []"
        by auto
      from rv Inr Some have rv': "recvall s 4 = (Inr (Some hdr), s1)"
        by simp
      from rvb Some have rvb': "recvall_backup s 4 = (Inr (Some hdr), s1)"
        by simp
      note unf = read_loop_prefix [OF rv' n, of q]
      note unfb = read_loop_backup_prefix [OF rvb' n, of q]
      show ?thesis
      proof (cases "10000000 < n")
        case True
        with unf result show ?thesis
          by simp
      next
        case small: False
        obtain x2 s2 where rv2: "recvall s1 n = (x2, s2)"
          by (cases "recvall s1 n")
        from inv1 have c1: "\<not> closed s1" and d1: "data_only (script s1)"
          by simp_all
        note agree2 = recvall_backup_agree [OF c1 d1 rv2]
        show ?thesis
        proof (cases x2)
          case (Inl e)
          with agree2 rv2 small unf result show ?thesis
            by simp
        next
          case r2: (Inr y2)
          with agree2 have rvb2: "recvall_backup s1 n = (Inr y2, s2)"
            by simp
          note inv2 = recvall_backup_keeps_data_only [OF c1 d1 rvb2]
          show ?thesis
          proof (cases y2)
            case None
            with rv2 r2 rvb2 small unf unfb result show ?thesis
              by simp
          next
            case frame: (Some frame_data)
            show ?thesis
            proof (cases "frame_data = []")
              case True
              with frame rv2 r2 rvb2 small unf unfb result show ?thesis
                by simp
            next
              case filled: False
              show ?thesis
              proof (cases "push q frame_data")
                case None
                with filled frame rv2 r2 small unf result show ?thesis
                  by simp
              next
                case pushed: (Some q1)
                from pushed filled frame rv2 r2 small unf result
                have "read_loop True s2 q1 = (Raised (SocketError None), s', q')"
                  by simp
                with inv2 have "read_loop_backup s2 q1 = (Exited, s', q')"
                  using "1.IH" [OF "1.prems"(3) rv [symmetric] Inr Some ne n small
                      rv2 [symmetric] r2 frame filled pushed] run
                  by simp
                with pushed filled frame rvb2 unfb show ?thesis
                  by simp
              qed
            qed
          qed
        qed
      qed
    qed
  qed
qed

lemma push_some:
  assumes "maxsize q = 0 \<or> qsize q \<le> maxsize q"
  shows "\<exists>q'. push q x = Some q'"
proof (cases "maxsize q = 0")
  case True
  then show ?thesis
    by (simp add: push_not_full full_q_def)
next
  case False
  with assms show ?thesis
    by (simp add: push_bounded)
qed

text \<open>No method writes \<open>self.running\<close> but \<open>__init__\<close> and \<open>stop\<close>.\<close>

lemma cleanup_client_running: "running (cleanup_client r) = running r"
  by (simp add: cleanup_client_def split: option.splits)

lemma serve_running: "running (fst (snd (serve r now q ev))) = running r"
  by (simp add: serve_def cleanup_client_running
      split: option.splits prod.splits sum.splits outcome.splits)

lemma pass_running: "running (fst (snd (pass r now q ev))) = running r"
  by (simp add: pass_def setup_socket_def serve_running cleanup_client_running
      split: option.splits)

lemma receive_frames_running: "running (fst (receive_frames r now q evs)) = running r"
proof (induction evs arbitrary: r now q)
  case Nil
  show ?case by simp
next
  case (Cons ev evs)
  obtain go_on r' now' q' where p: "pass r now q ev = (go_on, r', now', q')"
    by (cases "pass r now q ev")
  with pass_running [of r now q ev] have "running r' = running r"
    by simp
  with p Cons.IH [of r' now' q'] show ?case
    by simp
qed

lemma receive_frames_stopped: "\<not> running r \<Longrightarrow> receive_frames r now q evs = (r, now, q)"
  by (cases evs) simp_all

text \<open>The generator on a buffer that nobody pushes into.\<close>

lemma generate_pass_empty: "items q = [] \<Longrightarrow> generate_pass q = (Sleep 10, q)"
  by (simp add: generate_pass_def try_pop_def empty_q_def qsize_def)

lemma generate_pass_frame:
  "items q = frame # fs \<Longrightarrow>
   generate_pass q = (Yield (multipart_chunk frame), q\<lparr>items := fs\<rparr>)"
  by (simp add: generate_pass_def try_pop_def empty_q_def qsize_def get_q_def)

lemma generate_frames_empty: "items q = [] \<Longrightarrow> generate_frames q = sconst (Sleep 10)"
  by (coinduction arbitrary: q) (auto simp: generate_pass_empty)

lemma generate_frames_items:
  "generate_frames q = map (\<lambda>frame. Yield (multipart_chunk frame)) (items q) @- sconst (Sleep 10)"
proof (induction "items q" arbitrary: q)
  case Nil
  from Nil [symmetric] have "generate_frames q = sconst (Sleep 10)"
    by (rule generate_frames_empty)
  with Nil [symmetric] show ?case
    by (simp only: list.map shift.simps)
next
  case (Cons frame fs)
  from Cons.hyps(2) have p: "generate_pass q = (Yield (multipart_chunk frame), q\<lparr>items := fs\<rparr>)"
    by (simp add: generate_pass_frame)
  have "generate_frames (q\<lparr>items := fs\<rparr>)
      = map (\<lambda>frame. Yield (multipart_chunk frame)) (items (q\<lparr>items := fs\<rparr>)) @- sconst (Sleep 10)"
    by (rule Cons.hyps(1)) simp
  with p Cons.hyps(2) [symmetric] show ?case
    by (subst generate_frames.ctr) simp
qed

section \<open>Facts about connections with recv timeouts and interrupted calls\<close>

lemma time_to_0 [simp]: "time_to 0 es = 0"
  by (cases "(0::nat, es)" rule: time_to.cases) simp_all

lemma rest_after_0 [simp]: "rest_after 0 es = es"
  by (cases "(0::nat, es)" rule: rest_after.cases) simp_all

lemma last_check_0 [simp]: "last_check 0 es = 0"
  by (cases "(0::nat, es)" rule: last_check.cases) simp_all

lemma after_read_0 [simp]: "after_read s 0 = s"
  by (simp add: after_read_def)

lemma benign_cases:
  assumes "benign es"
  obtains (eof) "es = []"
    | (chunk) d bs rest where "es = (d, Data bs) # rest" "bs \<noteq> []" "benign rest"
    | (timeout) d rest where "es = (d, TimedOut) # rest" "benign rest"
    | (eintr) d rest where "es = (d, Fails EINTR) # rest" "benign rest"
    | (etimedout) d rest where "es = (d, Fails ETIMEDOUT) # rest" "benign rest"
  using assms by (cases es rule: benign.cases) auto

lemma data_only_benign: "data_only es \<Longrightarrow> benign es"
  by (induction es rule: data_only.induct) simp_all

lemma benign_rest_after: "benign es \<Longrightarrow> benign (rest_after n es)"
  by (induction n es rule: rest_after.induct) auto

lemma data_only_rest_after: "data_only es \<Longrightarrow> data_only (rest_after n es)"
  by (induction n es rule: rest_after.induct) auto

lemma bytes_of_rest_after: "bytes_of (rest_after n es) = drop n (bytes_of es)"
  by (induction n es rule: rest_after.induct) auto

lemma recv_timed_out:
  "\<not> closed s \<Longrightarrow> script s = (d, TimedOut) # rest \<Longrightarrow>
   recv s k = (Inl SocketTimeout, s\<lparr>clock := clock s + d, script := rest\<rparr>)"
  by (simp add: recv_def)

lemma recv_eintr:
  "\<not> closed s \<Longrightarrow> script s = (d, Fails EINTR) # rest \<Longrightarrow>
   recv s k = (Inl (SocketError (Some EINTR)), s\<lparr>clock := clock s + d, script := rest\<rparr>)"
  by (simp add: recv_def EINTR_def ETIMEDOUT_def)

lemma recv_etimedout:
  "\<not> closed s \<Longrightarrow> script s = (d, Fails ETIMEDOUT) # rest \<Longrightarrow>
   recv s k = (Inl SocketTimeout, s\<lparr>clock := clock s + d, script := rest\<rparr>)"
  by (simp add: recv_def)

text \<open>
  A piece longer than 8192 bytes that a read of more than 8192 bytes starts with: the
  first \<open>recv\<close> takes 8192 bytes of it and leaves the rest for the next one.
\<close>

lemma take_two_steps:
  "k \<le> length bs \<Longrightarrow> take k bs @ take m (drop k bs @ xs) = take (k + m) (bs @ xs)"
  by (simp add: take_add add.commute)


lemma pushback_last_check:
  "8192 < N \<Longrightarrow> 8192 < length bs \<Longrightarrow>
   d + last_check (N - 8192) ((0, Data (drop 8192 bs)) # rest) = last_check N ((d, Data bs) # rest)"
proof -
  assume a: "8192 < N" "8192 < length bs"
  then have e: "N - 8192 - (length bs - 8192) = N - length bs"
    by simp
  from a have c: "(length bs - 8192 < N - 8192) = (length bs < N)"
    by auto
  from a show ?thesis
    by (simp add: e c)
qed

lemma pushback_time_to:
  "8192 < N \<Longrightarrow> 8192 < length bs \<Longrightarrow>
   d + time_to (N - 8192) ((0, Data (drop 8192 bs)) # rest) = time_to N ((d, Data bs) # rest)"
proof -
  assume a: "8192 < N" "8192 < length bs"
  then have e: "N - 8192 - (length bs - 8192) = N - length bs"
    by simp
  from a show ?thesis
    by (simp add: e)
qed

lemma pushback_rest_after:
  "8192 < N \<Longrightarrow> 8192 < length bs \<Longrightarrow>
   rest_after (N - 8192) ((0, Data (drop 8192 bs)) # rest) = rest_after N ((d, Data bs) # rest)"
proof -
  assume a: "8192 < N" "8192 < length bs"
  then have e: "N - 8192 - (length bs - 8192) = N - length bs"
    by simp
  from a have c: "(length bs - 8192 \<le> N - 8192) = (length bs \<le> N)"
    by auto
  from a show ?thesis
    by (simp add: e c)
qed

lemma pushback_bytes:
  "8192 < N \<Longrightarrow> 8192 < length bs \<Longrightarrow>
   take 8192 bs @ take (N - 8192) (drop 8192 bs @ xs) = take N (bs @ xs)"
  using take_two_steps [of 8192 bs "N - 8192" xs] by simp

text \<open>
  What the loop of the resilient \<open>recvall\<close> does on such a connection, from any point of
  its run: it returns the bytes it has and the next ones of the stream when the last
  \<open>recv\<close> it needs starts before the deadline, and raises the timeout otherwise.
\<close>

lemma recvall_loop_benign:
  "\<not> closed s \<Longrightarrow> benign (script s) \<Longrightarrow> st \<le> clock s \<Longrightarrow> length data \<le> n \<Longrightarrow>
   (if n - length data = 0 \<or> clock s - st + last_check (n - length data) (script s) < 10000
    then recvall_loop s n st data =
      (Inr (if n - length data \<le> length (bytes_of (script s))
            then Some (data @ take (n - length data) (bytes_of (script s))) else None),
       after_read s (n - length data))
    else fst (recvall_loop s n st data) = Inl SocketTimeout)"
proof (induction s n st data rule: recvall_loop.induct)
  case (1 s n st data)
  let ?need = "n - length data"
  let ?k = "min ?need 8192"
  show ?case
  proof (cases "length data < n")
    case False
    with "1.prems" show ?thesis
      by (simp add: recvall_loop_exit)
  next
    case lt: True
    show ?thesis
    proof (cases "clock s - st < 10000")
      case False
      with lt show ?thesis
        by (simp add: recvall_loop_exit)
    next
      case tm: True
      from lt tm have head: "length data < n \<and> clock s - st < 10000"
        by simp
      from lt have kpos: "0 < ?k"
        by simp
      from "1.prems"(2) show ?thesis
      proof (cases rule: benign_cases)
        case eof
        have "s\<lparr>clock := clock s, script := []\<rparr> = s"
          using eof by (cases s) simp
        with eof lt tm "1.prems" show ?thesis
          by (simp add: recvall_loop_step [OF lt tm recv_eof] after_read_def)
      next
        case (timeout d rest)
        let ?s1 = "s\<lparr>clock := clock s + d, script := rest\<rparr>"
        from "1.prems" timeout have rv: "recv s ?k = (Inl SocketTimeout, ?s1)"
          by (simp add: recv_timed_out)
        have unf: "recvall_loop s n st data = recvall_loop ?s1 n st data"
          by (simp add: recvall_loop_step [OF lt tm rv])
        have IH: "if n - length data = 0
              \<or> clock ?s1 - st + last_check (n - length data) (script ?s1) < 10000
            then recvall_loop ?s1 n st data =
              (Inr (if n - length data \<le> length (bytes_of (script ?s1))
                    then Some (data @ take (n - length data) (bytes_of (script ?s1))) else None),
               after_read ?s1 (n - length data))
            else fst (recvall_loop ?s1 n st data) = Inl SocketTimeout"
          using "1.prems" timeout
          by (intro "1.IH"(1) [OF head rv [symmetric] refl refl]) simp_all
        from "1.prems"(3) have clk: "clock s + d - st = clock s - st + d"
          by simp
        from IH timeout lt clk show ?thesis
          unfolding unf by (simp add: after_read_def add.assoc split: if_splits)
      next
        case (etimedout d rest)
        let ?s1 = "s\<lparr>clock := clock s + d, script := rest\<rparr>"
        from "1.prems" etimedout have rv: "recv s ?k = (Inl SocketTimeout, ?s1)"
          by (simp add: recv_etimedout)
        have unf: "recvall_loop s n st data = recvall_loop ?s1 n st data"
          by (simp add: recvall_loop_step [OF lt tm rv])
        have IH: "if n - length data = 0
              \<or> clock ?s1 - st + last_check (n - length data) (script ?s1) < 10000
            then recvall_loop ?s1 n st data =
              (Inr (if n - length data \<le> length (bytes_of (script ?s1))
                    then Some (data @ take (n - length data) (bytes_of (script ?s1))) else None),
               after_read ?s1 (n - length data))
            else fst (recvall_loop ?s1 n st data) = Inl SocketTimeout"
          using "1.prems" etimedout
          by (intro "1.IH"(1) [OF head rv [symmetric] refl refl]) simp_all
        from "1.prems"(3) have clk: "clock s + d - st = clock s - st + d"
          by simp
        from IH etimedout lt clk show ?thesis
          unfolding unf by (simp add: after_read_def add.assoc split: if_splits)
      next
        case (eintr d rest)
        let ?s1 = "s\<lparr>clock := clock s + d, script := rest\<rparr>"
        from "1.prems" eintr
        have rv: "recv s ?k = (Inl (SocketError (Some EINTR)), ?s1)"
          by (simp add: recv_eintr)
        have unf: "recvall_loop s n st data = recvall_loop ?s1 n st data"
          by (simp add: recvall_loop_step [OF lt tm rv])
        have IH: "if n - length data = 0
              \<or> clock ?s1 - st + last_check (n - length data) (script ?s1) < 10000
            then recvall_loop ?s1 n st data =
              (Inr (if n - length data \<le> length (bytes_of (script ?s1))
                    then Some (data @ take (n - length data) (bytes_of (script ?s1))) else None),
               after_read ?s1 (n - length data))
            else fst (recvall_loop ?s1 n st data) = Inl SocketTimeout"
          using "1.prems" eintr
          by (intro "1.IH"(2) [OF head rv [symmetric] refl refl refl]) simp_all
        from "1.prems"(3) have clk: "clock s + d - st = clock s - st + d"
          by simp
        from IH eintr lt clk show ?thesis
          unfolding unf by (simp add: after_read_def add.assoc split: if_splits)
      next
        case (chunk d bs rest)
        from "1.prems"(3) have clk: "clock s + d - st = clock s - st + d"
          by simp
        show ?thesis
        proof (cases "length bs \<le> ?k")
          case whole: True
          let ?s1 = "s\<lparr>clock := clock s + d, script := rest\<rparr>"
          from "1.prems" chunk whole have rv: "recv s ?k = (Inr bs, ?s1)"
            by (simp add: recv_chunk)
          from chunk have unf: "recvall_loop s n st data = recvall_loop ?s1 n st (data @ bs)"
            by (simp add: recvall_loop_step [OF lt tm rv])
          from whole have le: "length bs \<le> ?need" and small: "length bs \<le> 8192"
            by simp_all
          have IH: "if n - length (data @ bs) = 0
                \<or> clock ?s1 - st + last_check (n - length (data @ bs)) (script ?s1) < 10000
              then recvall_loop ?s1 n st (data @ bs) =
                (Inr (if n - length (data @ bs) \<le> length (bytes_of (script ?s1))
                      then Some ((data @ bs) @ take (n - length (data @ bs)) (bytes_of (script ?s1)))
                      else None),
                 after_read ?s1 (n - length (data @ bs)))
              else fst (recvall_loop ?s1 n st (data @ bs)) = Inl SocketTimeout"
            using "1.prems" chunk le lt
            by (intro "1.IH"(3) [OF head rv [symmetric] refl chunk(2)]) simp_all
          have sub: "n - length (data @ bs) = ?need - length bs"
            by simp
          show ?thesis
          proof (cases "length bs = ?need")
            case True
            with IH chunk lt tm small clk show ?thesis
              unfolding unf sub by (simp add: after_read_def)
          next
            case False
            with le have less: "length bs < ?need"
              by simp
            then have ar: "(n - (length data + length bs) \<le> length (bytes_of rest))
                = (?need \<le> length bs + length (bytes_of rest))"
              by auto
            from less have nz: "?need - length bs \<noteq> 0"
              by simp
            from IH chunk lt tm clk le less nz show ?thesis
              unfolding unf sub by (simp add: after_read_def add.assoc ar split: if_splits)
          qed
        next
          case part: False
          show ?thesis
          proof (cases "?need \<le> 8192")
            case True
            then have mn: "min ?need 8192 = ?need"
              by simp
            from part mn have short: "?need < length bs"
              by simp
            let ?s1 = "s\<lparr>clock := clock s + d, script := (0, Data (drop ?need bs)) # rest\<rparr>"
            from "1.prems"(1) chunk(1) short
            have rv: "recv s (min ?need 8192) = (Inr (take ?need bs), ?s1)"
              unfolding mn by (simp add: recv_chunk)
            from lt short have ne: "take ?need bs \<noteq> []"
              by auto
            from ne
            have unf: "recvall_loop s n st data = recvall_loop ?s1 n st (data @ take ?need bs)"
              by (subst recvall_loop_step [OF lt tm rv]) (simp only: sum.case if_False)
            from lt short have full: "\<not> (length (data @ take ?need bs) < n
                \<and> clock ?s1 - st < 10000)"
              by simp
            from lt short have fin: "recvall_loop ?s1 n st (data @ take ?need bs)
                = (Inr (Some (data @ take ?need bs)), ?s1)"
              by (subst recvall_loop_exit [OF full]) simp
            from chunk(1) lt tm True short show ?thesis
              unfolding unf fin by (simp add: after_read_def)
          next
            case False
            then have big: "8192 < ?need" and mn: "min ?need 8192 = 8192"
              by simp_all
            from part mn have long: "8192 < length bs"
              by simp
            let ?s1 = "s\<lparr>clock := clock s + d, script := (0, Data (drop 8192 bs)) # rest\<rparr>"
            from "1.prems"(1) chunk(1) long
            have rv: "recv s (min ?need 8192) = (Inr (take 8192 bs), ?s1)"
              unfolding mn by (simp add: recv_chunk)
            from long have ne: "take 8192 bs \<noteq> []"
              by auto
            from ne
            have unf: "recvall_loop s n st data = recvall_loop ?s1 n st (data @ take 8192 bs)"
              by (subst recvall_loop_step [OF lt tm rv]) (simp only: sum.case if_False)
            from long big have sub: "n - length (data @ take 8192 bs) = ?need - 8192"
              by simp
            from long big chunk "1.prems"
            have IH: "if ?need - 8192 = 0
                  \<or> clock ?s1 - st + last_check (?need - 8192) (script ?s1) < 10000
                then recvall_loop ?s1 n st (data @ take 8192 bs) =
                  (Inr (if ?need - 8192 \<le> length (bytes_of (script ?s1))
                        then Some ((data @ take 8192 bs)
                               @ take (?need - 8192) (bytes_of (script ?s1)))
                        else None),
                   after_read ?s1 (?need - 8192))
                else fst (recvall_loop ?s1 n st (data @ take 8192 bs)) = Inl SocketTimeout"
              by (intro "1.IH"(3) [OF head rv [symmetric] refl ne, unfolded sub]) simp_all
            from big have nz: "?need - 8192 \<noteq> 0" "?need \<noteq> 0"
              by simp_all
            from chunk(1) clk pushback_last_check [OF big long, of d rest]
            have lc: "clock ?s1 - st + last_check (?need - 8192) (script ?s1)
                = clock s - st + last_check ?need (script s)"
              by (simp add: add.assoc del: last_check.simps)
            from chunk(1) pushback_time_to [OF big long, of d rest]
              pushback_rest_after [OF big long, of rest d]
            have ar: "after_read ?s1 (?need - 8192) = after_read s ?need"
              by (simp add: after_read_def add.assoc del: time_to.simps rest_after.simps)
            from chunk(1) pushback_bytes [OF big long, of "bytes_of rest"]
            have bt: "(data @ take 8192 bs) @ take (?need - 8192) (bytes_of (script ?s1))
                = data @ take ?need (bytes_of (script s))"
              by simp
            from chunk(1) big long
            have ln: "(?need - 8192 \<le> length (bytes_of (script ?s1)))
                = (?need \<le> length (bytes_of (script s)))"
              by auto
            from IH nz show ?thesis
              unfolding unf lc ar bt ln by simp
          qed
        qed
      qed
    qed
  qed
qed

lemma closed_after_read [simp]: "closed (after_read s n) = closed s"
  by (simp add: after_read_def)

lemma script_after_read [simp]: "script (after_read s n) = rest_after n (script s)"
  by (simp add: after_read_def)

lemma clock_after_read [simp]: "clock (after_read s n) = clock s + time_to n (script s)"
  by (simp add: after_read_def)

lemma after_read_eof: "script (s::sock) = [] \<Longrightarrow> after_read s n = s"
  by (cases s) (simp add: after_read_def)

lemma recvall_benign:
  assumes "\<not> closed s" and "benign (script s)" and "last_check n (script s) < 10000"
  shows "recvall s n =
     (Inr (if n \<le> length (bytes_of (script s)) then Some (take n (bytes_of (script s)))
           else None),
      after_read s n)"
  using recvall_loop_benign [of s "clock s" "[]" n] assms
  by (simp add: recvall_def)

lemma recvall_stalled:
  assumes "\<not> closed s" and "benign (script s)" and "\<not> last_check n (script s) < 10000"
  shows "fst (recvall s n) = Inl SocketTimeout"
proof -
  from assms(3) have "n \<noteq> 0"
    by (cases "n = 0") simp_all
  with recvall_loop_benign [of s "clock s" "[]" n] assms show ?thesis
    by (simp add: recvall_def)
qed

lemma recvall_backup_loop_data_only:
  "\<not> closed s \<Longrightarrow> data_only (script s) \<Longrightarrow> length data \<le> n \<Longrightarrow>
   recvall_backup_loop s n data =
     (Inr (if n - length data \<le> length (bytes_of (script s))
           then Some (data @ take (n - length data) (bytes_of (script s))) else None),
      after_read s (n - length data))"
proof (induction s n data rule: recvall_backup_loop.induct)
  case (1 s n data)
  let ?need = "n - length data"
  show ?case
  proof (cases "length data < n")
    case False
    with "1.prems" show ?thesis
      by (simp add: recvall_backup_loop_exit)
  next
    case lt: True
    from "1.prems"(2) show ?thesis
    proof (cases rule: data_only_cases)
      case eof
      with lt "1.prems" show ?thesis
        by (simp add: recvall_backup_loop_step [OF lt recv_eof] after_read_eof)
    next
      case (chunk d bs rest)
      show ?thesis
      proof (cases "length bs \<le> ?need")
        case whole: True
        let ?s1 = "s\<lparr>clock := clock s + d, script := rest\<rparr>"
        from "1.prems" chunk whole have rv: "recv s ?need = (Inr bs, ?s1)"
          by (simp add: recv_chunk)
        from chunk have unf: "recvall_backup_loop s n data = recvall_backup_loop ?s1 n (data @ bs)"
          by (simp add: recvall_backup_loop_step [OF lt rv])
        have sub: "n - length (data @ bs) = ?need - length bs"
          by simp
        from "1.prems" chunk whole lt
        have IH: "recvall_backup_loop ?s1 n (data @ bs) =
            (Inr (if ?need - length bs \<le> length (bytes_of (script ?s1))
                  then Some ((data @ bs) @ take (?need - length bs) (bytes_of (script ?s1)))
                  else None),
             after_read ?s1 (?need - length bs))"
          by (intro "1.IH" [OF lt rv [symmetric] refl chunk(2), unfolded sub]) simp_all
        from whole have ln: "(?need - length bs \<le> length (bytes_of rest))
            = (?need \<le> length bs + length (bytes_of rest))"
          by auto
        from lt have nz: "?need \<noteq> 0"
          by simp
        from chunk(1) whole nz have ar: "after_read ?s1 (?need - length bs) = after_read s ?need"
          by (simp add: after_read_def add.assoc)
        from chunk(1) whole
        have bt: "(data @ bs) @ take (?need - length bs) (bytes_of (script ?s1))
            = data @ take ?need (bytes_of (script s))"
          by simp
        from chunk(1) have ln': "(?need - length bs \<le> length (bytes_of (script ?s1)))
            = (?need \<le> length (bytes_of (script s)))"
          using ln by simp
        show ?thesis
          unfolding unf IH ar bt ln' by simp
      next
        case part: False
        then have short: "?need < length bs"
          by simp
        let ?s1 = "s\<lparr>clock := clock s + d, script := (0, Data (drop ?need bs)) # rest\<rparr>"
        from "1.prems"(1) chunk(1) short have rv: "recv s ?need = (Inr (take ?need bs), ?s1)"
          by (simp add: recv_chunk)
        from lt short have ne: "take ?need bs \<noteq> []"
          by auto
        from ne have unf: "recvall_backup_loop s n data
            = recvall_backup_loop ?s1 n (data @ take ?need bs)"
          by (subst recvall_backup_loop_step [OF lt rv]) (simp only: sum.case if_False)
        from lt short have full: "\<not> length (data @ take ?need bs) < n"
          by simp
        from chunk(1) lt short show ?thesis
          unfolding unf recvall_backup_loop_exit [OF full] by (simp add: after_read_def)
      qed
    qed
  qed
qed

lemma recvall_backup_data_only:
  assumes "\<not> closed s" and "data_only (script s)"
  shows "recvall_backup s n =
     (Inr (if n \<le> length (bytes_of (script s)) then Some (take n (bytes_of (script s)))
           else None),
      after_read s n)"
  using recvall_backup_loop_data_only [of s "[]" n] assms
  by (simp add: recvall_backup_def)

lemma read_loop_frame:
  assumes "\<not> closed s" and "benign (script s)"
    and "bytes_of (script s) = hdr @ payload @ behind"
    and "unpack_I hdr = Inr (length payload)"
    and "payload \<noteq> []" and "length payload \<le> 10000000"
    and "last_check 4 (script s) < 10000"
    and "last_check (length payload) (script (after_read s 4)) < 10000"
    and "push q payload = Some q'"
  shows "read_loop True s q = read_loop True (after_read (after_read s 4) (length payload)) q'"
proof -
  let ?s1 = "after_read s 4"
  from assms(4) have len: "length hdr = 4"
    by (rule unpack_I_length)
  from assms(1,2,7) assms(3) len have rv1: "recvall s 4 = (Inr (Some hdr), ?s1)"
    by (simp add: recvall_benign)
  from assms(2) have "benign (script ?s1)"
    by (simp add: benign_rest_after)
  moreover from assms(3) len have "bytes_of (script ?s1) = payload @ behind"
    by (simp add: bytes_of_rest_after)
  ultimately have rv2: "recvall ?s1 (length payload)
      = (Inr (Some payload), after_read ?s1 (length payload))"
    using assms(1,8) by (simp add: recvall_benign)
  from assms(5,6,9) show ?thesis
    by (simp add: read_loop_prefix [OF rv1 assms(4)] rv2)
qed

lemma read_loop_drained:
  assumes "\<not> closed s" and "script s = []"
  shows "read_loop True s q = (Raised (SocketError None), s, q)"
proof -
  from assms have "recvall s 4 = (Inr None, s)"
    by (simp add: recvall_benign after_read_eof)
  then show ?thesis
    by (rule read_loop_eof)
qed

section \<open>Claims about the frame queue\<close>

text \<open>
  Claim C1. For every sequence of pushes \<open>ps\<close> into an empty buffer of capacity \<open>N > 0\<close>
  (the code's \<open>Queue(maxsize=10)\<close>; a \<open>maxsize\<close> of 0 is Python's unbounded queue):
  a push onto a full buffer removes exactly the oldest entry and appends the new frame;
  no push blocks or fails; after all the pushes the buffer holds exactly the last
  \<open>min (length ps) N\<close> frames in push order; and after every prefix of the pushes the
  size is at most \<open>N\<close>.
\<close>

theorem push_drop_oldest:
  assumes "0 < N" and "maxsize q = N" and "items q = []"
  shows "(\<forall>b x. maxsize b = N \<and> qsize b = N \<longrightarrow>
            push b x = Some (b\<lparr>items := tl (items b) @ [x]\<rparr>))
       \<and> (\<exists>q'. pushes q ps = Some q' \<and> maxsize q' = N
              \<and> items q' = drop (length ps - min (length ps) N) ps)
       \<and> (\<forall>j \<le> length ps. \<exists>b. pushes q (take j ps) = Some b \<and> maxsize b = N \<and> qsize b \<le> N)"
proof (intro conjI allI impI)
  fix b x
  assume "maxsize b = N \<and> qsize b = N"
  with assms(1) show "push b x = Some (b\<lparr>items := tl (items b) @ [x]\<rparr>)"
    by (simp add: push_full full_q_def)
next
  from assms have "pushes q ps = Some (q\<lparr>items := drop (qsize q + length ps - maxsize q) (items q @ ps)\<rparr>)"
    by (intro pushes_bounded) (simp_all add: qsize_def)
  with assms show "\<exists>q'. pushes q ps = Some q' \<and> maxsize q' = N
      \<and> items q' = drop (length ps - min (length ps) N) ps"
    by (simp add: qsize_def min_def)
next
  fix j
  assume "j \<le> length ps"
  from assms have "pushes q (take j ps)
      = Some (q\<lparr>items := drop (qsize q + length (take j ps) - maxsize q) (items q @ take j ps)\<rparr>)"
    by (intro pushes_bounded) (simp_all add: qsize_def)
  with assms show "\<exists>b. pushes q (take j ps) = Some b \<and> maxsize b = N \<and> qsize b \<le> N"
    by (simp add: qsize_def)
qed

text \<open>The scenario with capacity 3 and the frames A, B, C, D.\<close>

theorem push_drop_oldest_witness:
  "pushes \<lparr>maxsize = 3, items = []\<rparr> [''A'', ''B'', ''C'', ''D'']
     = Some \<lparr>maxsize = 3, items = [''B'', ''C'', ''D'']\<rparr>
   \<and> push \<lparr>maxsize = 3, items = [''A'', ''B'', ''C'']\<rparr> ''D''
     = Some \<lparr>maxsize = 3, items = [''B'', ''C'', ''D'']\<rparr>"
proof -
  let ?q = "\<lparr>maxsize = 3, items = []\<rparr>"
  let ?ps = "[''A'', ''B'', ''C'', ''D'']"
  note inst = push_drop_oldest [of 3 ?q ?ps]
  have h: "(0::nat) < 3" "maxsize ?q = 3" "items ?q = []"
    by simp_all
  from inst [OF h] obtain q' where "pushes ?q ?ps = Some q'" "maxsize q' = 3"
      "items q' = drop (length ?ps - min (length ?ps) 3) ?ps"
    by blast
  then have "pushes ?q ?ps = Some \<lparr>maxsize = 3, items = [''B'', ''C'', ''D'']\<rparr>"
    by (cases q') simp
  moreover from inst [OF h]
  have "push \<lparr>maxsize = 3, items = [''A'', ''B'', ''C'']\<rparr> ''D''
      = Some (\<lparr>maxsize = 3, items = [''A'', ''B'', ''C'']\<rparr>
               \<lparr>items := tl (items \<lparr>maxsize = 3, items = [''A'', ''B'', ''C'']\<rparr>) @ [''D'']\<rparr>)"
    by (simp add: qsize_def)
  ultimately show ?thesis by simp
qed

text \<open>
  Claim C7. The guarded pop on an empty buffer answers \<open>Empty\<close> and leaves the buffer as
  it is; with nothing pushed in between, repeated pops return the buffered frames in push
  order, each once, and \<open>Empty\<close> from then on. With capacity 3, pushing A, B, C, D leaves
  \<open>[B, C, D]\<close>, and four pops give B, C, D and \<open>Empty\<close>.
\<close>

theorem try_pop_fifo:
  "try_pop (q\<lparr>items := []\<rparr>) = (Empty, q\<lparr>items := []\<rparr>)
   \<and> pops (length (items q) + m) q = (map Got (items q) @ replicate m Empty, q\<lparr>items := []\<rparr>)
   \<and> pushes \<lparr>maxsize = 3, items = []\<rparr> [A, B, C, D] = Some \<lparr>maxsize = 3, items = [B, C, D]\<rparr>
   \<and> pops 4 \<lparr>maxsize = 3, items = [B, C, D]\<rparr>
       = ([Got B, Got C, Got D, Empty], \<lparr>maxsize = 3, items = []\<rparr>)"
proof (intro conjI)
  show "try_pop (q\<lparr>items := []\<rparr>) = (Empty, q\<lparr>items := []\<rparr>)"
    by (simp add: try_pop_def empty_q_def qsize_def)
  show "pops (length (items q) + m) q = (map Got (items q) @ replicate m Empty, q\<lparr>items := []\<rparr>)"
    by (rule pops_all)
  show "pushes \<lparr>maxsize = 3, items = []\<rparr> [A, B, C, D] = Some \<lparr>maxsize = 3, items = [B, C, D]\<rparr>"
    by (simp add: push_def full_q_def qsize_def put_q_def get_q_def)
  show "pops 4 \<lparr>maxsize = 3, items = [B, C, D]\<rparr>
       = ([Got B, Got C, Got D, Empty], \<lparr>maxsize = 3, items = []\<rparr>)"
    by (simp add: eval_nat_numeral try_pop_def empty_q_def qsize_def get_q_def)
qed

section \<open>Claims about the read loop\<close>

text \<open>
  Claim C10. A message whose length prefix is 0 is not relayed as an empty frame: the
  byte-read primitive returns the empty byte string for \<open>n = 0\<close>, the read loop takes it
  for a lost connection and leaves the loop without pushing, and the connection is closed,
  in both files. In \<open>stream_server.py\<close> the loop raises \<open>socket.error\<close> and the pass of
  the accept loop cleans the client up and sleeps one second; in the backup file the loop
  breaks and the \<open>finally\<close> clause closes the socket.
\<close>

theorem zero_length_frame_dropped:
  assumes "unpack_I hdr = Inr 0"
  shows "(recvall s 4 = (Inr (Some hdr), s1) \<longrightarrow>
            read_loop True s q = (Raised (SocketError None), s1, q)
          \<and> (\<forall>(r::receiver) l now ev now1. running r \<and> server_socket r = Some l
                \<and> accept l now ev = (Inr s, now1) \<longrightarrow>
                serve r now q ev = (True, r\<lparr>current_client := None\<rparr>, clock s1 + 1000, q)))
       \<and> (recvall_backup s 4 = (Inr (Some hdr), s1) \<longrightarrow>
            read_loop_backup s q = (Exited, s1, q)
          \<and> connection_backup s q = (Exited, s1\<lparr>closed := True\<rparr>, q))"
proof (intro conjI impI allI)
  assume rv: "recvall s 4 = (Inr (Some hdr), s1)"
  show loop: "read_loop True s q = (Raised (SocketError None), s1, q)"
    by (simp add: read_loop_prefix [OF rv assms] recvall_zero)
  fix r :: receiver and l now ev now1
  assume "running r \<and> server_socket r = Some l \<and> accept l now ev = (Inr s, now1)"
  with loop show "serve r now q ev = (True, r\<lparr>current_client := None\<rparr>, clock s1 + 1000, q)"
    by (simp add: serve_raised)
next
  assume rv: "recvall_backup s 4 = (Inr (Some hdr), s1)"
  show loop: "read_loop_backup s q = (Exited, s1, q)"
    by (simp add: read_loop_backup_prefix [OF rv assms] recvall_backup_zero)
  then show "connection_backup s q = (Exited, s1\<lparr>closed := True\<rparr>, q)"
    by (simp add: connection_backup_def)
qed

text \<open>
  A prefix of 0 split over two reads, with one more byte behind it; the receiver is the
  one \<open>__init__\<close> makes, and the connection is accepted at once.
\<close>

theorem zero_length_frame_dropped_witness:
  "read_loop True
     \<lparr>closed = False, clock = 0,
      script = [(20, Data [CHR 0x00, CHR 0x00]), (30, Data [CHR 0x00, CHR 0x00, CHR 0x41])]\<rparr>
     frame_queue
   = (Raised (SocketError None),
      \<lparr>closed = False, clock = 50, script = [(0, Data [CHR 0x41])]\<rparr>, frame_queue)
   \<and> serve (fst (init_receiver 5555 True 0)) 0 frame_queue
       \<lparr>bind_ok = True, wait = 0,
        accepted = Connects [(20, Data [CHR 0x00, CHR 0x00]),
                             (30, Data [CHR 0x00, CHR 0x00, CHR 0x41])]\<rparr>
     = (True, fst (init_receiver 5555 True 0), 1050, frame_queue)
   \<and> connection_backup
     \<lparr>closed = False, clock = 0,
      script = [(20, Data [CHR 0x00, CHR 0x00]), (30, Data [CHR 0x00, CHR 0x00, CHR 0x41])]\<rparr>
     frame_queue
   = (Exited, \<lparr>closed = True, clock = 50, script = [(0, Data [CHR 0x41])]\<rparr>, frame_queue)"
proof -
  let ?scr = "[(20, Data [CHR 0x00, CHR 0x00]), (30, Data [CHR 0x00, CHR 0x00, CHR 0x41])]"
  let ?s = "\<lparr>closed = False, clock = 0, script = ?scr\<rparr>"
  let ?s1 = "\<lparr>closed = False, clock = 50, script = [(0, Data [CHR 0x41])]\<rparr>"
  let ?hdr = "[CHR 0x00, CHR 0x00, CHR 0x00, CHR 0x00]"
  let ?r = "fst (init_receiver 5555 True 0)"
  let ?l = "\<lparr>bound = True, listener_closed = False\<rparr>"
  let ?ev = "\<lparr>bind_ok = True, wait = 0, accepted = Connects ?scr\<rparr>"
  have hdr: "unpack_I ?hdr = Inr 0"
    by (simp add: unpack_I_def)
  have rv: "recvall ?s 4 = (Inr (Some ?hdr), ?s1)"
    by (simp add: recvall_def recvall_loop.simps recv_def)
  have rvb: "recvall_backup ?s 4 = (Inr (Some ?hdr), ?s1)"
    by (simp add: recvall_backup_def recvall_backup_loop.simps recv_def)
  have r: "running ?r \<and> server_socket ?r = Some ?l \<and> accept ?l 0 ?ev = (Inr ?s, 0)"
    and idle: "?r\<lparr>current_client := None\<rparr> = ?r"
    by (simp_all add: init_receiver_def setup_socket_def accept_def)
  note inst = zero_length_frame_dropped [OF hdr, of ?s ?s1 frame_queue]
  from inst rv have "serve ?r 0 frame_queue ?ev
      = (True, ?r\<lparr>current_client := None\<rparr>, clock ?s1 + 1000, frame_queue)"
    using r by blast
  with inst rv rvb idle show ?thesis
    by simp
qed




text \<open>
  Claim C2, as amended. A pass of the read loop of \<open>stream_server.py\<close> starts on a
  connection whose next bytes are a well-formed message: the big-endian 32-bit prefix
  \<open>N\<close> and a payload of \<open>N\<close> bytes, with \<open>1 \<le> N \<le> 10,000,000\<close>. The message may arrive in
  any number of non-empty partial reads, down to one byte at a time, with recv timeouts
  and interrupted calls in between, and other bytes may follow it. If each of the two
  calls of \<open>recvall\<close>, the one for the prefix and the one for the payload, starts its
  last \<open>recv\<close> less than ten seconds after the call began, then the pass pushes exactly
  one frame, equal to the payload, and the loop goes on right behind the last byte of
  the message; if the connection ends there, the loop finds it closed, with that one
  frame pushed. The queue is any queue that is unbounded or within its bound.
\<close>

theorem deframe_roundtrip:
  assumes "\<not> closed s" and "benign (script s)"
    and "bytes_of (script s) = hdr @ payload @ behind"
    and "unpack_I hdr = Inr (length payload)"
    and "1 \<le> length payload" and "length payload \<le> 10000000"
    and "last_check 4 (script s) < 10000"
    and "last_check (length payload) (script (after_read s 4)) < 10000"
    and "maxsize q = 0 \<or> qsize q \<le> maxsize q"
  shows "\<exists>q'. push q payload = Some q'
      \<and> read_loop True s q
          = read_loop True (after_read (after_read s 4) (length payload)) q'
      \<and> bytes_of (script (after_read (after_read s 4) (length payload))) = behind
      \<and> (script (after_read (after_read s 4) (length payload)) = [] \<longrightarrow>
           read_loop True s q =
             (Raised (SocketError None), after_read (after_read s 4) (length payload), q'))"
proof -
  let ?s2 = "after_read (after_read s 4) (length payload)"
  from assms(9) obtain q' where q': "push q payload = Some q'"
    using push_some by blast
  from assms(5) have ne: "payload \<noteq> []"
    by auto
  from assms(1-4) ne assms(6-8) q' have step: "read_loop True s q = read_loop True ?s2 q'"
    by (rule read_loop_frame)
  from assms(4) have "length hdr = 4"
    by (rule unpack_I_length)
  with assms(3) have rest: "bytes_of (script ?s2) = behind"
    by (simp add: bytes_of_rest_after)
  from assms(1) have "\<not> closed ?s2"
    by simp
  then have "read_loop True ?s2 q' = (Raised (SocketError None), ?s2, q')"
    if "script ?s2 = []"
    using that by (rule read_loop_drained)
  with q' step rest show ?thesis
    by simp
qed

text \<open>
  Two messages on one connection, the prefix 5 with \<open>HELLO\<close> one byte per read, then the
  prefix 2 with \<open>AB\<close>. The first takes 23 seconds to arrive, with two recv timeouts of
  five seconds and an interrupted call on the way; both frames are pushed, in order.
\<close>

theorem deframe_roundtrip_witness:
  "read_loop True
     \<lparr>closed = False, clock = 0,
      script = [(1500, Data [CHR 0x00]), (1500, Data [CHR 0x00]), (5000, TimedOut),
                (1500, Data [CHR 0x00]), (1500, Data [CHR 0x05]),
                (1000, Data ''H''), (1000, Data ''E''), (0, Fails EINTR), (1000, Data ''L''),
                (5000, TimedOut), (1000, Data ''L''), (3000, Data ''O''),
                (10, Data [CHR 0x00, CHR 0x00, CHR 0x00, CHR 0x02, CHR ''A'']),
                (10, Data ''B'')]\<rparr>
     frame_queue
   = (Raised (SocketError None), \<lparr>closed = False, clock = 23020, script = []\<rparr>,
      \<lparr>maxsize = 10, items = [''HELLO'', ''AB'']\<rparr>)"
proof -
  let ?five = "[CHR 0x00, CHR 0x00, CHR 0x00, CHR 0x05]"
  let ?two = "[CHR 0x00, CHR 0x00, CHR 0x00, CHR 0x02]"
  let ?s = "\<lparr>closed = False, clock = 0,
      script = [(1500, Data [CHR 0x00]), (1500, Data [CHR 0x00]), (5000, TimedOut),
                (1500, Data [CHR 0x00]), (1500, Data [CHR 0x05]),
                (1000, Data ''H''), (1000, Data ''E''), (0, Fails EINTR), (1000, Data ''L''),
                (5000, TimedOut), (1000, Data ''L''), (3000, Data ''O''),
                (10, Data [CHR 0x00, CHR 0x00, CHR 0x00, CHR 0x02, CHR ''A'']),
                (10, Data ''B'')]\<rparr>"
  let ?t = "\<lparr>closed = False, clock = 23000,
      script = [(10, Data [CHR 0x00, CHR 0x00, CHR 0x00, CHR 0x02, CHR ''A'']),
                (10, Data ''B'')]\<rparr>"
  let ?u = "\<lparr>closed = False, clock = 23020, script = []\<rparr>"
  let ?q1 = "\<lparr>maxsize = 10, items = [''HELLO'']\<rparr>"
  let ?q2 = "\<lparr>maxsize = 10, items = [''HELLO'', ''AB'']\<rparr>"
  have after_s: "after_read (after_read ?s 4) (length ''HELLO'') = ?t"
    by (simp add: after_read_def)
  have after_t: "after_read (after_read ?t 4) (length ''AB'') = ?u"
    by (simp add: after_read_def)
  have push1: "push frame_queue ''HELLO'' = Some ?q1"
    by (simp add: push_def frame_queue_def full_q_def qsize_def put_q_def)
  have push2: "push ?q1 ''AB'' = Some ?q2"
    by (simp add: push_def full_q_def qsize_def put_q_def)
  have "\<exists>q'. push frame_queue ''HELLO'' = Some q'
      \<and> read_loop True ?s frame_queue
          = read_loop True (after_read (after_read ?s 4) (length ''HELLO'')) q'
      \<and> bytes_of (script (after_read (after_read ?s 4) (length ''HELLO''))) = ?two @ ''AB''
      \<and> (script (after_read (after_read ?s 4) (length ''HELLO'')) = [] \<longrightarrow>
           read_loop True ?s frame_queue =
             (Raised (SocketError None), after_read (after_read ?s 4) (length ''HELLO''), q'))"
  proof (rule deframe_roundtrip [where hdr = ?five])
    show "\<not> closed ?s" by simp
    show "benign (script ?s)" by simp
    show "bytes_of (script ?s) = ?five @ ''HELLO'' @ ?two @ ''AB''" by simp
    show "unpack_I ?five = Inr (length ''HELLO'')" by (simp add: unpack_I_def)
    show "1 \<le> length ''HELLO''" by simp
    show "length ''HELLO'' \<le> 10000000" by simp
    show "last_check 4 (script ?s) < 10000" by simp
    show "last_check (length ''HELLO'') (script (after_read ?s 4)) < 10000" by simp
    show "maxsize frame_queue = 0 \<or> qsize frame_queue \<le> maxsize frame_queue"
      by (simp add: frame_queue_def qsize_def)
  qed
  then obtain q' where pushed: "push frame_queue ''HELLO'' = Some q'"
    and passed: "read_loop True ?s frame_queue = read_loop True ?t q'"
    unfolding after_s by blast
  from pushed push1 have "q' = ?q1"
    by simp
  with passed have first: "read_loop True ?s frame_queue = read_loop True ?t ?q1"
    by simp
  have "\<exists>q'. push ?q1 ''AB'' = Some q'
      \<and> read_loop True ?t ?q1
          = read_loop True (after_read (after_read ?t 4) (length ''AB'')) q'
      \<and> bytes_of (script (after_read (after_read ?t 4) (length ''AB''))) = []
      \<and> (script (after_read (after_read ?t 4) (length ''AB'')) = [] \<longrightarrow>
           read_loop True ?t ?q1 =
             (Raised (SocketError None), after_read (after_read ?t 4) (length ''AB''), q'))"
  proof (rule deframe_roundtrip [where hdr = ?two])
    show "\<not> closed ?t" by simp
    show "benign (script ?t)" by simp
    show "bytes_of (script ?t) = ?two @ ''AB'' @ []" by simp
    show "unpack_I ?two = Inr (length ''AB'')" by (simp add: unpack_I_def)
    show "1 \<le> length ''AB''" by simp
    show "length ''AB'' \<le> 10000000" by simp
    show "last_check 4 (script ?t) < 10000" by simp
    show "last_check (length ''AB'') (script (after_read ?t 4)) < 10000" by simp
    show "maxsize ?q1 = 0 \<or> qsize ?q1 \<le> maxsize ?q1"
      by (simp add: qsize_def)
  qed
  then obtain q' where pushed: "push ?q1 ''AB'' = Some q'"
    and ended: "script ?u = [] \<longrightarrow>
      read_loop True ?t ?q1 = (Raised (SocketError None), ?u, q')"
    unfolding after_t by blast
  from pushed push2 have "q' = ?q2"
    by simp
  with ended have second: "read_loop True ?t ?q1 = (Raised (SocketError None), ?u, ?q2)"
    by simp
  from first second show ?thesis
    by simp
qed

text \<open>
  The claim as stated fails in two ways: the well-formed message with prefix 0 pushes no
  frame, and \<open>HELLO\<close> delivered one byte every four seconds runs into the 10-second limit
  of \<open>recvall\<close> after its third byte and pushes no frame.
\<close>

theorem deframe_roundtrip_counterexample:
  "read_loop True
     \<lparr>closed = False, clock = 0,
      script = [(0, Data [CHR 0x00, CHR 0x00, CHR 0x00, CHR 0x00])]\<rparr>
     frame_queue
   = (Raised (SocketError None), \<lparr>closed = False, clock = 0, script = []\<rparr>, frame_queue)
   \<and> read_loop True
     \<lparr>closed = False, clock = 0,
      script = [(0, Data [CHR 0x00, CHR 0x00, CHR 0x00, CHR 0x05]), (4000, Data ''H''),
                (4000, Data ''E''), (4000, Data ''L''), (4000, Data ''L''), (4000, Data ''O'')]\<rparr>
     frame_queue
   = (Raised SocketTimeout,
      \<lparr>closed = False, clock = 12000, script = [(4000, Data ''L''), (4000, Data ''O'')]\<rparr>,
      frame_queue)"
proof -
  let ?zero = "[CHR 0x00, CHR 0x00, CHR 0x00, CHR 0x00]"
  let ?five = "[CHR 0x00, CHR 0x00, CHR 0x00, CHR 0x05]"
  let ?s = "\<lparr>closed = False, clock = 0, script = [(0, Data ?zero)]\<rparr>"
  let ?t = "\<lparr>closed = False, clock = 0,
      script = [(0, Data ?five), (4000, Data ''H''),
                (4000, Data ''E''), (4000, Data ''L''), (4000, Data ''L''), (4000, Data ''O'')]\<rparr>"
  let ?t1 = "\<lparr>closed = False, clock = 0,
      script = [(4000, Data ''H''),
                (4000, Data ''E''), (4000, Data ''L''), (4000, Data ''L''), (4000, Data ''O'')]\<rparr>"
  have zero: "unpack_I ?zero = Inr 0" and five: "unpack_I ?five = Inr 5"
    by (simp_all add: unpack_I_def)
  have rv_s: "recvall ?s 4 = (Inr (Some ?zero), \<lparr>closed = False, clock = 0, script = []\<rparr>)"
    by (simp add: recvall_def recvall_loop.simps recv_def)
  have rv_t: "recvall ?t 4 = (Inr (Some ?five), ?t1)"
    by (simp add: recvall_def recvall_loop.simps recv_def)
  have rv_5: "recvall ?t1 5 = (Inl SocketTimeout,
      \<lparr>closed = False, clock = 12000, script = [(4000, Data ''L''), (4000, Data ''O'')]\<rparr>)"
    by (simp add: recvall_def recvall_loop.simps recv_def)
  show ?thesis
    by (simp add: read_loop_prefix [OF rv_s zero] read_loop_prefix [OF rv_t five]
        recvall_zero rv_5)
qed

text \<open>
  Claim C4, as amended. On a connection that delivers only data and then closes, whenever
  the read loop of \<open>stream_server.py\<close> ends by finding the connection lost (so it neither
  rejected a length prefix nor ran into its timeout), the read loop of
  \<open>stream_server_working_backup.py\<close> on the same connection and queue pushes the same
  frames, stops at the same point of the stream and ends the connection too.
\<close>

theorem read_loops_agree:
  assumes "\<not> closed s" and "data_only (script s)"
    and "read_loop True s q = (Raised (SocketError None), s', q')"
  shows "read_loop_backup s q = (Exited, s', q')"
  using assms(1,2) TrueI assms(3) by (rule read_loops_agree_run)

text \<open>The frame \<open>AB\<close>, its first byte arriving with the prefix.\<close>

theorem read_loops_agree_witness:
  "read_loop_backup
     \<lparr>closed = False, clock = 0,
      script = [(100, Data [CHR 0x00, CHR 0x00, CHR 0x00, CHR 0x02, CHR 0x41]),
                (100, Data [CHR 0x42])]\<rparr>
     frame_queue
   = (Exited, \<lparr>closed = False, clock = 200, script = []\<rparr>,
      \<lparr>maxsize = 10, items = [[CHR 0x41, CHR 0x42]]\<rparr>)"
proof -
  let ?s = "\<lparr>closed = False, clock = 0,
      script = [(100, Data [CHR 0x00, CHR 0x00, CHR 0x00, CHR 0x02, CHR 0x41]),
                (100, Data [CHR 0x42])]\<rparr>"
  let ?hdr = "[CHR 0x00, CHR 0x00, CHR 0x00, CHR 0x02]"
  let ?payload = "[CHR 0x41, CHR 0x42]"
  have c: "\<not> closed ?s" and d: "data_only (script ?s)"
    by simp_all
  have "read_loop True ?s frame_queue =
     (Raised (SocketError None),
      ?s\<lparr>clock := clock ?s + total_delay (script ?s), script := []\<rparr>,
      \<lparr>maxsize = 10, items = [?payload]\<rparr>)"
  proof (rule read_loop_one_frame [where hdr = ?hdr and payload = ?payload])
    show "total_delay (script ?s) < 10000" by simp
    show "bytes_of (script ?s) = ?hdr @ ?payload" by simp
    show "unpack_I ?hdr = Inr (length ?payload)" by (simp add: unpack_I_def)
    show "?payload \<noteq> []" by simp
    show "length ?payload \<le> 10000000" by simp
    show "push frame_queue ?payload = Some \<lparr>maxsize = 10, items = [?payload]\<rparr>"
      by (simp add: push_def frame_queue_def full_q_def qsize_def put_q_def)
  qed (rule c d)+
  then have "read_loop True ?s frame_queue =
     (Raised (SocketError None), \<lparr>closed = False, clock = 200, script = []\<rparr>,
      \<lparr>maxsize = 10, items = [?payload]\<rparr>)"
    by simp
  from read_loops_agree [OF c d this] show ?thesis .
qed

text \<open>
  The two loops are not identical: on the prefix 10,000,001 followed by that many bytes
  the loop of \<open>stream_server.py\<close> raises \<open>ValueError\<close> and pushes nothing, the backup's
  pushes the frame.
\<close>

theorem read_loops_differ_counterexample:
  "read_loop True
     \<lparr>closed = False, clock = 0,
      script = [(0, Data ([CHR 0x00, CHR 0x98, CHR 0x96, CHR 0x81] @ replicate 10000001 (CHR 0x00)))]\<rparr>
     frame_queue
   = (Raised ValueError,
      \<lparr>closed = False, clock = 0, script = [(0, Data (replicate 10000001 (CHR 0x00)))]\<rparr>,
      frame_queue)
   \<and> read_loop_backup
     \<lparr>closed = False, clock = 0,
      script = [(0, Data ([CHR 0x00, CHR 0x98, CHR 0x96, CHR 0x81] @ replicate 10000001 (CHR 0x00)))]\<rparr>
     frame_queue
   = (Exited, \<lparr>closed = False, clock = 0, script = []\<rparr>,
      \<lparr>maxsize = 10, items = [replicate 10000001 (CHR 0x00)]\<rparr>)"
proof -
  let ?hdr = "[CHR 0x00, CHR 0x98, CHR 0x96, CHR 0x81]"
  let ?payload = "replicate 10000001 (CHR 0x00)"
  let ?s = "\<lparr>closed = False, clock = 0, script = [(0, Data (?hdr @ ?payload))]\<rparr>"
  let ?s1 = "\<lparr>closed = False, clock = 0, script = [(0, Data ?payload)]\<rparr>"
  have hdr: "unpack_I ?hdr = Inr 10000001"
    by (simp add: unpack_I_def)
  have c: "\<not> closed ?s" and sc: "script ?s = (0, Data (?hdr @ ?payload)) # []"
    by simp_all
  have rv: "recv ?s (min (4 - length ([]::bytes)) 8192) = (Inr ?hdr, ?s1)"
    by (simp add: recv_def)
  have "recvall ?s 4 = (Inr (Some ?hdr), ?s1)"
    unfolding recvall_def
    by (subst recvall_loop_step [OF _ _ rv]) (simp_all add: recvall_loop_exit)
  from read_loop_prefix [OF this hdr, of frame_queue]
  have r: "read_loop True ?s frame_queue = (Raised ValueError, ?s1, frame_queue)"
    by simp
  have "read_loop_backup ?s frame_queue =
     (Exited, ?s\<lparr>clock := clock ?s + total_delay (script ?s), script := []\<rparr>,
      \<lparr>maxsize = 10, items = [?payload]\<rparr>)"
  proof (rule read_loop_backup_one_frame [where hdr = ?hdr and payload = ?payload])
    show "\<not> closed ?s" by simp
    show "data_only (script ?s)" by simp
    show "bytes_of (script ?s) = ?hdr @ ?payload" by simp
    show "unpack_I ?hdr = Inr (length ?payload)" using hdr by simp
    show "?payload \<noteq> []" by simp
    show "push frame_queue ?payload = Some \<lparr>maxsize = 10, items = [?payload]\<rparr>"
      by (simp add: push_def frame_queue_def full_q_def qsize_def put_q_def)
  qed
  with r show ?thesis
    by simp
qed

section \<open>Claims about the byte-read primitive\<close>

text \<open>
  Claim C6. \<open>recvall(sock, n)\<close>, in both files, returns bytes only when it has exactly
  \<open>n\<close> of them. The resilient variant, on a connection that delivers non-empty pieces of
  data between recv timeouts and interrupted calls, gathers the pieces across them: if
  every \<open>recv\<close> the call needs starts less than ten seconds after the call began, it
  returns the first \<open>n\<close> bytes of the stream and leaves the socket right behind them, or
  it returns \<open>None\<close> when the stream ends before \<open>n\<close> bytes; otherwise it raises
  \<open>socket.timeout\<close> and returns nothing. The variant of the backup file, on a
  connection that only delivers data, returns the first \<open>n\<close> bytes of the stream however
  long they take, or \<open>None\<close> when the stream ends before.
\<close>

theorem recvall_exact:
  "(recvall s n = (Inr (Some d), s') \<longrightarrow> length d = n)
   \<and> (recvall_backup s n = (Inr (Some d), s') \<longrightarrow> length d = n)
   \<and> (\<not> closed s \<and> benign (script s) \<and> last_check n (script s) < 10000 \<longrightarrow>
        recvall s n =
          (Inr (if n \<le> length (bytes_of (script s))
                then Some (take n (bytes_of (script s))) else None),
           after_read s n))
   \<and> (\<not> closed s \<and> benign (script s) \<and> \<not> last_check n (script s) < 10000 \<longrightarrow>
        fst (recvall s n) = Inl SocketTimeout)
   \<and> (\<not> closed s \<and> data_only (script s) \<longrightarrow>
        recvall_backup s n =
          (Inr (if n \<le> length (bytes_of (script s))
                then Some (take n (bytes_of (script s))) else None),
           after_read s n))"
proof (intro conjI impI)
  show "length d = n" if "recvall s n = (Inr (Some d), s')"
    using that by (rule recvall_length)
  show "length d = n" if "recvall_backup s n = (Inr (Some d), s')"
    using that by (rule recvall_backup_length)
  show "recvall s n =
          (Inr (if n \<le> length (bytes_of (script s))
                then Some (take n (bytes_of (script s))) else None),
           after_read s n)"
    if "\<not> closed s \<and> benign (script s) \<and> last_check n (script s) < 10000"
    using that by (simp add: recvall_benign)
  show "fst (recvall s n) = Inl SocketTimeout"
    if "\<not> closed s \<and> benign (script s) \<and> \<not> last_check n (script s) < 10000"
    using that by (simp add: recvall_stalled)
  show "recvall_backup s n =
          (Inr (if n \<le> length (bytes_of (script s))
                then Some (take n (bytes_of (script s))) else None),
           after_read s n)"
    if "\<not> closed s \<and> data_only (script s)"
    using that by (simp add: recvall_backup_data_only)
qed

text \<open>
  Asked for four bytes, the resilient variant returns \<open>ABCD\<close> across a recv timeout and
  an interrupted call, on a connection whose next piece is twenty seconds away; asked
  for six of five bytes, it returns \<open>None\<close>; after two recv timeouts of five seconds it
  raises with two bytes received. The backup variant waits twenty seconds for its
  second piece.
\<close>

theorem recvall_exact_witness:
  "recvall \<lparr>closed = False, clock = 0,
      script = [(5, Data ''AB''), (5000, TimedOut), (0, Fails EINTR), (5, Data ''CDE''),
                (20000, Data ''F'')]\<rparr> 4
     = (Inr (Some ''ABCD''),
        \<lparr>closed = False, clock = 5010, script = [(0, Data ''E''), (20000, Data ''F'')]\<rparr>)
   \<and> recvall \<lparr>closed = False, clock = 0,
      script = [(5, Data ''AB''), (5000, TimedOut), (5, Data ''CDE'')]\<rparr> 6
     = (Inr None, \<lparr>closed = False, clock = 5010, script = []\<rparr>)
   \<and> fst (recvall \<lparr>closed = False, clock = 0,
      script = [(5, Data ''AB''), (5000, TimedOut), (5000, TimedOut), (5, Data ''CD'')]\<rparr> 4)
     = Inl SocketTimeout
   \<and> recvall_backup \<lparr>closed = False, clock = 0,
      script = [(5, Data ''AB''), (20000, Data ''CDE'')]\<rparr> 4
     = (Inr (Some ''ABCD''), \<lparr>closed = False, clock = 20005, script = [(0, Data ''E'')]\<rparr>)"
proof -
  let ?s = "\<lparr>closed = False, clock = 0,
      script = [(5, Data ''AB''), (5000, TimedOut), (0, Fails EINTR), (5, Data ''CDE''),
                (20000, Data ''F'')]\<rparr>"
  let ?t = "\<lparr>closed = False, clock = 0,
      script = [(5, Data ''AB''), (5000, TimedOut), (5, Data ''CDE'')]\<rparr>"
  let ?u = "\<lparr>closed = False, clock = 0,
      script = [(5, Data ''AB''), (5000, TimedOut), (5000, TimedOut), (5, Data ''CD'')]\<rparr>"
  let ?v = "\<lparr>closed = False, clock = 0, script = [(5, Data ''AB''), (20000, Data ''CDE'')]\<rparr>"
  note on_time = recvall_exact [THEN conjunct2, THEN conjunct2, THEN conjunct1, rule_format]
  note stalled = recvall_exact [THEN conjunct2, THEN conjunct2, THEN conjunct2, THEN conjunct1,
      rule_format]
  note backup = recvall_exact [THEN conjunct2, THEN conjunct2, THEN conjunct2, THEN conjunct2,
      rule_format]
  have "\<not> closed ?s \<and> benign (script ?s) \<and> last_check 4 (script ?s) < 10000"
    by simp
  from on_time [OF this]
  have one: "recvall ?s 4 = (Inr (Some ''ABCD''),
        \<lparr>closed = False, clock = 5010, script = [(0, Data ''E''), (20000, Data ''F'')]\<rparr>)"
    by (simp add: after_read_def)
  have "\<not> closed ?t \<and> benign (script ?t) \<and> last_check 6 (script ?t) < 10000"
    by simp
  from on_time [OF this]
  have two: "recvall ?t 6 = (Inr None, \<lparr>closed = False, clock = 5010, script = []\<rparr>)"
    by (simp add: after_read_def)
  have "\<not> closed ?u \<and> benign (script ?u) \<and> \<not> last_check 4 (script ?u) < 10000"
    by simp
  from stalled [OF this]
  have three: "fst (recvall ?u 4) = Inl SocketTimeout" .
  have "\<not> closed ?v \<and> data_only (script ?v)"
    by simp
  from backup [OF this, of 4]
  have four: "recvall_backup ?v 4
      = (Inr (Some ''ABCD''), \<lparr>closed = False, clock = 20005, script = [(0, Data ''E'')]\<rparr>)"
    by (simp add: after_read_def)
  from one two three four show ?thesis
    by simp
qed

section \<open>Claims about the receiver's state\<close>

text \<open>
  Claim C8. After \<open>stop()\<close> the running flag is off, there is no client connection left
  (\<open>cleanup_client\<close> has closed it), the listening socket, if any, is closed, neither the
  accept loop nor the read loop runs another pass (so nothing more is pushed), and no
  method turns the flag back on: \<open>cleanup_client\<close>, \<open>setup_socket\<close> and
  \<open>receive_frames\<close> leave it as it is and \<open>stop\<close> turns it off.
\<close>

theorem stop_is_terminal:
  "running (stop r) = False
   \<and> current_client (stop r) = None
   \<and> server_socket (stop r) = map_option (\<lambda>l. l\<lparr>listener_closed := True\<rparr>) (server_socket r)
   \<and> receive_frames (stop r) now q evs = (stop r, now, q)
   \<and> read_loop (running (stop r)) s q = (Exited, s, q)
   \<and> running (cleanup_client r) = running r
   \<and> running (fst (snd (setup_socket r b now))) = running r
   \<and> running (fst (receive_frames r now q evs)) = running r
   \<and> running (stop (stop r)) = False"
proof -
  have off: "running (stop r) = False" for r
    by (simp add: stop_def Let_def cleanup_client_def split: option.splits)
  have "current_client (stop r) = None"
    by (simp add: stop_def Let_def cleanup_client_def split: option.splits)
  moreover have "server_socket (stop r)
      = map_option (\<lambda>l. l\<lparr>listener_closed := True\<rparr>) (server_socket r)"
    by (simp add: stop_def Let_def cleanup_client_def split: option.splits)
  moreover have "receive_frames (stop r) now q evs = (stop r, now, q)"
    by (simp add: receive_frames_stopped off)
  moreover have "read_loop (running (stop r)) s q = (Exited, s, q)"
    by (simp add: off read_loop_stopped)
  moreover have "running (fst (snd (setup_socket r b now))) = running r"
    by (simp add: setup_socket_def)
  ultimately show ?thesis
    by (simp add: off cleanup_client_running receive_frames_running)
qed

text \<open>
  Claim C5, as amended. The status operation returns the buffer's current occupancy and
  the receiver's running flag: the boolean is true until \<open>stop()\<close> has been called,
  whether or not a producer is connected.
\<close>

theorem status_reports_running_flag:
  "queue_size (status q rcv) = length (items q)
   \<and> server_running (status q (Some r)) = running r
   \<and> server_running (status q None) = False
   \<and> status q (Some (r\<lparr>current_client := c\<rparr>)) = status q (Some r)
   \<and> server_running (status q (Some (stop r))) = False"
  by (simp add: status_def qsize_def stop_def Let_def cleanup_client_def split: option.splits)

text \<open>
  The claim as stated fails: for the receiver as \<open>__init__\<close> leaves it the boolean is
  true, and no producer has connected.
\<close>

theorem status_not_connection_counterexample:
  "server_running (status frame_queue (Some (fst (init_receiver 5555 True 0)))) = True
   \<and> current_client (fst (init_receiver 5555 True 0)) = None"
  by (simp add: status_def init_receiver_def setup_socket_def)

section \<open>Claims about the streaming generator\<close>

text \<open>
  Claim C9. On a buffer that nobody pushes into, the generator yields, for each buffered
  frame in order, the bytes \<open>--frame\<close>, CR LF, \<open>Content-Type: image/jpeg\<close>, CR LF CR LF,
  the frame, CR LF, and from then on sleeps 10 milliseconds pass after pass; it is an
  infinite stream. Whatever the buffer holds, one pass yields that chunk for the oldest
  frame and removes it, or, on an empty buffer, yields nothing and sleeps 10 milliseconds.
\<close>

theorem generate_frames_multipart:
  "generate_frames q =
     map (\<lambda>frame. Yield (''--frame'' @ [CHR 0x0D, CHR 0x0A] @ ''Content-Type: image/jpeg''
            @ [CHR 0x0D, CHR 0x0A, CHR 0x0D, CHR 0x0A] @ frame @ [CHR 0x0D, CHR 0x0A]))
       (items q)
     @- sconst (Sleep 10)
   \<and> generate_pass (q\<lparr>items := frame # fs\<rparr>) =
       (Yield (''--frame'' @ [CHR 0x0D, CHR 0x0A] @ ''Content-Type: image/jpeg''
            @ [CHR 0x0D, CHR 0x0A, CHR 0x0D, CHR 0x0A] @ frame @ [CHR 0x0D, CHR 0x0A]),
        q\<lparr>items := fs\<rparr>)
   \<and> generate_pass (q\<lparr>items := []\<rparr>) = (Sleep 10, q\<lparr>items := []\<rparr>)"
  using generate_frames_items [of q] generate_pass_frame [of "q\<lparr>items := frame # fs\<rparr>" frame fs]
    generate_pass_empty [of "q\<lparr>items := []\<rparr>"]
  by (simp add: multipart_chunk_def CRLF_def)

end
